theory Spec2Isabelle
  imports Main
begin

section \<open>fast-json: the scanner of lib/FastJson.js\<close>

text \<open>
  The input of \<^verbatim>\<open>write\<close> is a JavaScript string or a Buffer. Both are read by offset
  only (\<^verbatim>\<open>_get\<close>) and cut by \<^verbatim>\<open>slice\<close>, so the input is modelled as the list of its code
  units (bytes for a Buffer, UTF-16 code units for a string), each a natural number.
  Keys of the path trie are JavaScript strings, again lists of code units; for a Buffer
  \<^verbatim>\<open>_toString\<close> decodes UTF-8, which is the identity on ASCII keys.
\<close>

type_synonym code = nat
type_synonym jstext = "code list"

definition codes :: "string \<Rightarrow> jstext" where
  "codes s = map of_char s"

subsection \<open>Constants (FastJson.js, lines 3-18)\<close>

abbreviation OPEN_BRACE :: code where "OPEN_BRACE \<equiv> 123"
abbreviation CLOSE_BRACE :: code where "CLOSE_BRACE \<equiv> 125"
abbreviation OPEN_BRACKET :: code where "OPEN_BRACKET \<equiv> 91"
abbreviation CLOSE_BRACKET :: code where "CLOSE_BRACKET \<equiv> 93"
abbreviation QUOTE :: code where "QUOTE \<equiv> 34"
abbreviation SPACE :: code where "SPACE \<equiv> 32"
abbreviation NEW_LINE :: code where "NEW_LINE \<equiv> 10"
abbreviation CARRIAGE_RETURN :: code where "CARRIAGE_RETURN \<equiv> 13"
abbreviation TAB :: code where "TAB \<equiv> 9"
abbreviation COLON :: code where "COLON \<equiv> 58"
abbreviation COMMA :: code where "COMMA \<equiv> 44"
abbreviation BACKSLASH :: code where "BACKSLASH \<equiv> 92"

datatype container = TYPE_ARRAY | TYPE_OBJECT

definition ROOT_KEY :: jstext where
  "ROOT_KEY = [47]"

subsection \<open>Reading the input\<close>

text \<open>
  \<^verbatim>\<open>_get(data, index)\<close>: \<^verbatim>\<open>charCodeAt\<close> gives NaN and a Buffer gives \<^verbatim>\<open>undefined\<close> for an offset
  outside the input. Neither equals any constant of a \<^verbatim>\<open>switch\<close>; here it is \<open>None\<close>.
\<close>

definition get :: "jstext \<Rightarrow> nat \<Rightarrow> code option" where
  "get data index = (if index < length data then Some (data ! index) else None)"

text \<open>
  \<^verbatim>\<open>data.slice(start, end)\<close> for offsets that are natural numbers: the code units from
  \<open>start\<close> up to, not including, \<open>end\<close>, cut at the end of the input, empty when
  \<open>end \<le> start\<close>.
\<close>

definition slice :: "jstext \<Rightarrow> nat \<Rightarrow> nat \<Rightarrow> jstext" where
  "slice data start end = take (end - start) (drop start data)"

text \<open>
  \<^verbatim>\<open>_toString(data, start, end)\<close> is called with the fields of \<^verbatim>\<open>_lastString\<close>, which are
  both \<^verbatim>\<open>undefined\<close> until the first string has been lexed (the constructor sets
  \<^verbatim>\<open>_lastString = {}\<close>); \<^verbatim>\<open>data.slice(undefined, undefined)\<close> is the whole input.
  This is \<^verbatim>\<open>_toString\<close> for a string. For a Buffer the code decodes the bytes as UTF-8,
  which gives the same key when the bytes are ASCII; a key with other bytes in a Buffer
  is outside this model.
\<close>

definition toString :: "jstext \<Rightarrow> (nat \<times> nat) option \<Rightarrow> jstext" where
  "toString data span = (case span of None \<Rightarrow> data | Some (start, end) \<Rightarrow> slice data start end)"

subsection \<open>The lexers (FastJson.js, lines 219-274)\<close>

text \<open>
  The loops of \<^verbatim>\<open>_parseString\<close>, \<^verbatim>\<open>_parsePrimitive\<close> and \<^verbatim>\<open>_skipBlock\<close> have no bound on the
  offset. They are partial functions: \<open>None\<close> is a loop that never returns.
\<close>

partial_function (option) parseString_loop :: "jstext \<Rightarrow> nat \<Rightarrow> nat option" where
  "parseString_loop data i =
     (if get data i = Some QUOTE then Some i
      else if get data i = Some BACKSLASH then parseString_loop data (i + 1 + 1)
      else parseString_loop data (i + 1))"

declare parseString_loop.simps [code]

definition parseString :: "jstext \<Rightarrow> nat \<Rightarrow> nat option" where
  "parseString data index = parseString_loop data (index + 1)"

definition terminator :: "code option \<Rightarrow> bool" where
  "terminator c \<longleftrightarrow>
     c = Some CLOSE_BRACKET \<or> c = Some CLOSE_BRACE \<or> c = Some COMMA \<or>
     c = Some TAB \<or> c = Some CARRIAGE_RETURN \<or> c = Some NEW_LINE \<or> c = Some SPACE"

partial_function (option) parsePrimitive_loop :: "jstext \<Rightarrow> nat \<Rightarrow> nat option" where
  "parsePrimitive_loop data i =
     (if terminator (get data i) then Some i else parsePrimitive_loop data (i + 1))"

declare parsePrimitive_loop.simps [code]

definition parsePrimitive :: "jstext \<Rightarrow> nat \<Rightarrow> nat option" where
  "parsePrimitive data index = parsePrimitive_loop data index"

text \<open>
  \<^verbatim>\<open>_skipBlock\<close>: the cases of the \<^verbatim>\<open>switch\<close> are tried in the order QUOTE, openChar,
  closeChar. After a string, \<^verbatim>\<open>i += strEnd - i\<close> and then the \<^verbatim>\<open>i++\<close> of the loop.
\<close>

partial_function (option) skipBlock_loop ::
    "jstext \<Rightarrow> code \<Rightarrow> code \<Rightarrow> nat \<Rightarrow> nat \<Rightarrow> nat option" where
  "skipBlock_loop data openChar closeChar blockDepth i =
     (if blockDepth > 0 then
        (if get data i = Some QUOTE then
           (case parseString data i of
              None \<Rightarrow> None
            | Some strEnd \<Rightarrow> skipBlock_loop data openChar closeChar blockDepth (i + (strEnd - i) + 1))
         else if get data i = Some openChar then
           skipBlock_loop data openChar closeChar (blockDepth + 1) (i + 1)
         else if get data i = Some closeChar then
           skipBlock_loop data openChar closeChar (blockDepth - 1) (i + 1)
         else skipBlock_loop data openChar closeChar blockDepth (i + 1))
      else Some (i - 1))"

declare skipBlock_loop.simps [code]

definition skipBlock :: "jstext \<Rightarrow> nat \<Rightarrow> code \<Rightarrow> code \<Rightarrow> nat option" where
  "skipBlock data index openChar closeChar = skipBlock_loop data openChar closeChar 1 (index + 1)"

subsection \<open>The path trie (lib/EventTree.js)\<close>

text \<open>
  A listener is a JavaScript callback. It is identified by a number; what it does with
  the value is outside the scanner, except that it may call \<^verbatim>\<open>skip()\<close>. A call of a listener
  is the pair of the listener and the value it received.
\<close>

type_synonym listener = nat
type_synonym call = "listener \<times> jstext"

text \<open>
  Modelled from the spec: the node of the Path Trie of lib/EventTree.js (required in line 1
  of FastJson.js; its source is not available). A node holds its listeners in registration
  order and a mapping from segment to child node with unique keys (an association list
  read by \<open>map_of\<close>).
\<close>

datatype node = Node (listeners: "listener list") (children: "(jstext \<times> node) list")

text \<open>
  Modelled from the spec: the trie with its cursor. The cursor is the stack of the
  segments that \<^verbatim>\<open>down\<close> has pushed and \<^verbatim>\<open>up\<close> has not popped yet, the latest first (the
  explicit path stack of the spec's design notes); the empty stack is the root.
\<close>

record eventTree =
  tree :: node
  cursor :: "jstext list"

fun nodeAt :: "node \<Rightarrow> jstext list \<Rightarrow> node option" where
  "nodeAt n [] = Some n"
| "nodeAt n (k # ks) = (case map_of (children n) k of None \<Rightarrow> None | Some c \<Rightarrow> nodeAt c ks)"

definition current :: "eventTree \<Rightarrow> node option" where
  "current e = nodeAt (tree e) (rev (cursor e))"

text \<open>
  Modelled from the spec: \<^verbatim>\<open>register(path, listener)\<close> of lib/EventTree.js walks from the
  root, creates the missing nodes and appends the listener to the last node.
\<close>

fun register_node :: "jstext list \<Rightarrow> listener \<Rightarrow> node \<Rightarrow> node" where
  "register_node [] l (Node ls cs) = Node (ls @ [l]) cs"
| "register_node (k # ks) l (Node ls cs) =
     (case map_of cs k of
        None \<Rightarrow> Node ls (cs @ [(k, register_node ks l (Node [] []))])
      | Some c \<Rightarrow> Node ls (map (\<lambda>(k', c'). if k' = k then (k', register_node ks l c) else (k', c')) cs))"

definition register :: "jstext list \<Rightarrow> listener \<Rightarrow> eventTree \<Rightarrow> eventTree" where
  "register path l e = e\<lparr>tree := register_node path l (tree e)\<rparr>"

text \<open>
  Modelled from the spec: \<^verbatim>\<open>hasNode(key)\<close> (\<^verbatim>\<open>hasChild\<close> in the spec) of lib/EventTree.js
  is true when the node under the cursor has a child of that name, with or without
  listeners.
\<close>

definition hasNode :: "eventTree \<Rightarrow> jstext \<Rightarrow> bool" where
  "hasNode e key =
     (case current e of None \<Rightarrow> False | Some n \<Rightarrow> map_of (children n) key \<noteq> None)"

text \<open>
  Modelled from the spec: \<^verbatim>\<open>down(key)\<close> and \<^verbatim>\<open>up()\<close> of lib/EventTree.js move the cursor to
  the named child and to the parent. The spec gives them no meaning for a child that does
  not exist and for the parent of the root: there the result is \<open>None\<close>.
\<close>

definition down :: "eventTree \<Rightarrow> jstext \<Rightarrow> eventTree option" where
  "down e key = (if hasNode e key then Some (e\<lparr>cursor := key # cursor e\<rparr>) else None)"

definition up :: "eventTree \<Rightarrow> eventTree option" where
  "up e = (case cursor e of [] \<Rightarrow> None | k # ks \<Rightarrow> Some (e\<lparr>cursor := ks\<rparr>))"

text \<open>
  Modelled from the spec: \<^verbatim>\<open>hasListener()\<close> of lib/EventTree.js tells whether the node
  under the cursor has any listener.
\<close>

definition hasListener :: "eventTree \<Rightarrow> bool" where
  "hasListener e = (case current e of None \<Rightarrow> False | Some n \<Rightarrow> listeners n \<noteq> [])"

text \<open>
  Modelled from the spec: \<^verbatim>\<open>reset()\<close> of lib/EventTree.js returns the cursor to the root.
\<close>

definition reset :: "eventTree \<Rightarrow> eventTree" where
  "reset e = e\<lparr>cursor := []\<rparr>"

subsection \<open>The scanner state (FastJson.js, lines 24-31)\<close>

record frame =
  ftype :: container
  fstart :: nat
  fkey :: jstext
  findex :: nat

text \<open>
  The fields of the class, the top of \<^verbatim>\<open>_stack\<close> first. \<open>calls\<close> is not a field: it
  records every call of a listener, in order, so that theorems can speak about them.
\<close>

record scanner =
  stack :: "frame list"
  postColon :: bool
  lastString :: "(nat \<times> nat) option"
  skipped :: bool
  events :: eventTree
  calls :: "call list"

definition FastJson :: scanner where
  "FastJson =
     \<lparr>stack = [], postColon = False, lastString = None, skipped = False,
      events = \<lparr>tree = Node [] [], cursor = []\<rparr>, calls = []\<rparr>"

text \<open>
  \<^verbatim>\<open>on(path, listener)\<close> hands the path to the trie. Here a path is the whole sequence of
  segments from the root of the trie, so it starts with the root symbol \<open>ROOT_KEY\<close>, under
  which \<^verbatim>\<open>_getKey\<close> enters the top-level container; how a string is cut into segments is
  left to lib/EventTree.js.
\<close>

definition on :: "jstext list \<Rightarrow> listener \<Rightarrow> scanner \<Rightarrow> scanner" where
  "on path l s = s\<lparr>events := register path l (events s)\<rparr>"

definition skip :: "scanner \<Rightarrow> scanner" where
  "skip s = s\<lparr>skipped := True\<rparr>"

text \<open>
  What the listeners do: after the call that ends the history \<open>cs\<close>, the callback has
  called \<^verbatim>\<open>skip()\<close> exactly when \<open>sk cs\<close> holds. A listener that never cancels is
  \<open>\<lambda>cs. False\<close>.
\<close>

type_synonym policy = "call list \<Rightarrow> bool"

definition invoke :: "policy \<Rightarrow> jstext \<Rightarrow> listener \<Rightarrow> scanner \<Rightarrow> scanner" where
  "invoke sk v l s =
     (let s1 = s\<lparr>calls := calls s @ [(l, v)]\<rparr>
      in if sk (calls s1) then skip s1 else s1)"

text \<open>
  Modelled from the spec: \<^verbatim>\<open>emit(value)\<close> of lib/EventTree.js invokes every listener of the
  node under the cursor, in registration order, with the raw slice.
\<close>

definition emit :: "policy \<Rightarrow> jstext \<Rightarrow> scanner \<Rightarrow> scanner" where
  "emit sk v s =
     (case current (events s) of
        None \<Rightarrow> s
      | Some n \<Rightarrow> fold (invoke sk v) (listeners n) s)"

subsection \<open>The handlers of the scanner (FastJson.js, lines 102-209 and 281-318)\<close>

text \<open>
  \<open>TypeError\<close> is the error JavaScript throws when a field of \<^verbatim>\<open>undefined\<close> is read or
  written (the top of an empty stack). \<open>TrieFault\<close> is a call of \<^verbatim>\<open>down\<close> or \<^verbatim>\<open>up\<close> for which
  the spec gives the trie no meaning.
\<close>

datatype error = TypeError | TrieFault

definition getFrame :: "scanner \<Rightarrow> frame option" where
  "getFrame s = (case stack s of [] \<Rightarrow> None | frame # rest \<Rightarrow> Some frame)"

definition getKeyForPrimitiveObject :: "jstext \<Rightarrow> scanner \<Rightarrow> jstext" where
  "getKeyForPrimitiveObject data s = toString data (lastString s)"

text \<open>The template string of \<^verbatim>\<open>_getKeyForPrimitiveArray\<close> prints the index in decimal.\<close>

fun decimal :: "nat \<Rightarrow> jstext" where
  "decimal n = (if n < 10 then [48 + n] else decimal (n div 10) @ [48 + n mod 10])"

declare decimal.simps [simp del]

definition getKeyForPrimitiveArray :: "frame \<Rightarrow> jstext" where
  "getKeyForPrimitiveArray frame = decimal (findex frame)"

definition getKey :: "jstext \<Rightarrow> scanner \<Rightarrow> jstext" where
  "getKey data s =
     (case stack s of
        [] \<Rightarrow> ROOT_KEY
      | frame # rest \<Rightarrow>
          if ftype frame = TYPE_ARRAY then getKeyForPrimitiveArray frame
          else getKeyForPrimitiveObject data s)"

definition onOpenBlock ::
    "jstext \<Rightarrow> nat \<Rightarrow> container \<Rightarrow> code \<Rightarrow> code \<Rightarrow> scanner \<Rightarrow> (error + nat \<times> scanner) option" where
  "onOpenBlock data index type openChar closeChar s =
     (let key = getKey data s in
      if \<not> hasNode (events s) key then
        (case skipBlock data index openChar closeChar of
           None \<Rightarrow> None
         | Some i \<Rightarrow> Some (Inr (i, s)))
      else
        (case down (events s) key of
           None \<Rightarrow> Some (Inl TrieFault)
         | Some e \<Rightarrow>
             Some (Inr (index,
               s\<lparr>events := e,
                 stack := \<lparr>ftype = type, fstart = index, fkey = key, findex = 0\<rparr> # stack s,
                 postColon := False\<rparr>))))"

text \<open>
  \<^verbatim>\<open>_onCloseBlock\<close>: \<^verbatim>\<open>pop\<close> of an empty stack gives \<^verbatim>\<open>undefined\<close>, and the assignment to
  \<^verbatim>\<open>frame.end\<close> throws. The slice runs from \<^verbatim>\<open>frame.start\<close> to \<^verbatim>\<open>frame.end + 1\<close>.
\<close>

definition onCloseBlock :: "policy \<Rightarrow> jstext \<Rightarrow> nat \<Rightarrow> scanner \<Rightarrow> error + scanner" where
  "onCloseBlock sk data index s =
     (case stack s of
        [] \<Rightarrow> Inl TypeError
      | frame # rest \<Rightarrow>
          (let s1 = s\<lparr>stack := rest\<rparr>;
               s2 = (if hasListener (events s1)
                     then emit sk (slice data (fstart frame) (index + 1)) s1 else s1)
           in case up (events s2) of
                None \<Rightarrow> Inl TrieFault
              | Some e \<Rightarrow> Inr (s2\<lparr>events := e\<rparr>)))"

text \<open>
  The statements that both branches of \<^verbatim>\<open>_emitPrimitiveOrString\<close> run on their key
  (lines 188-196 and 199-207).
\<close>

definition emitUnder :: "policy \<Rightarrow> jstext \<Rightarrow> jstext \<Rightarrow> scanner \<Rightarrow> error + scanner" where
  "emitUnder sk key v s =
     (if hasNode (events s) key then
        (case down (events s) key of
           None \<Rightarrow> Inl TrieFault
         | Some e1 \<Rightarrow>
             (let s1 = s\<lparr>events := e1\<rparr>;
                  s2 = (if hasListener (events s1) then emit sk v s1 else s1)
              in case up (events s2) of
                   None \<Rightarrow> Inl TrieFault
                 | Some e3 \<Rightarrow> Inr (s2\<lparr>events := e3\<rparr>)))
      else Inr s)"

text \<open>
  \<^verbatim>\<open>_emitPrimitiveOrString\<close>: with \<^verbatim>\<open>_postColon\<close> unset the code reads \<^verbatim>\<open>frame.type\<close>, which
  throws when the stack is empty.
\<close>

definition emitPrimitiveOrString ::
    "policy \<Rightarrow> jstext \<Rightarrow> nat \<Rightarrow> nat \<Rightarrow> scanner \<Rightarrow> error + scanner" where
  "emitPrimitiveOrString sk data start end s =
     (if postColon s then
        emitUnder sk (getKeyForPrimitiveObject data s) (slice data start end) s
      else
        (case getFrame s of
           None \<Rightarrow> Inl TypeError
         | Some frame \<Rightarrow>
             if ftype frame = TYPE_ARRAY then
               emitUnder sk (getKeyForPrimitiveArray frame) (slice data start end) s
             else Inr s))"

definition onQuote :: "policy \<Rightarrow> jstext \<Rightarrow> nat \<Rightarrow> scanner \<Rightarrow> (error + nat \<times> scanner) option" where
  "onQuote sk data index s =
     (let strStart = index + 1 in
      case parseString data index of
        None \<Rightarrow> None
      | Some strEnd \<Rightarrow>
          (case emitPrimitiveOrString sk data strStart strEnd s of
             Inl err \<Rightarrow> Some (Inl err)
           | Inr s1 \<Rightarrow>
               Some (Inr (index + ((strEnd - strStart) + 1),
                 s1\<lparr>postColon := False, lastString := Some (strStart, strEnd)\<rparr>))))"

definition onComma :: "scanner \<Rightarrow> error + scanner" where
  "onComma s =
     (case stack s of
        [] \<Rightarrow> Inl TypeError
      | frame # rest \<Rightarrow>
          if ftype frame = TYPE_ARRAY
          then Inr (s\<lparr>stack := frame\<lparr>findex := findex frame + 1\<rparr> # rest\<rparr>)
          else Inr s)"

text \<open>
  \<^verbatim>\<open>_onPrimitive\<close> is reached from the \<^verbatim>\<open>default\<close> case of \<^verbatim>\<open>write\<close> only, where the code
  unit at \<open>index\<close> is no terminator: \<open>primEnd\<close> is larger than \<open>index\<close>, and the
  subtraction \<open>primEnd - index - 1\<close> is the one of the integers.
\<close>

definition onPrimitive :: "policy \<Rightarrow> jstext \<Rightarrow> nat \<Rightarrow> scanner \<Rightarrow> (error + nat \<times> scanner) option" where
  "onPrimitive sk data index s =
     (case parsePrimitive data index of
        None \<Rightarrow> None
      | Some primEnd \<Rightarrow>
          (case emitPrimitiveOrString sk data index primEnd s of
             Inl err \<Rightarrow> Some (Inl err)
           | Inr s1 \<Rightarrow> Some (Inr (index + (primEnd - index - 1), s1\<lparr>postColon := False\<rparr>))))"

subsection \<open>write (FastJson.js, lines 46-91)\<close>

text \<open>
  One pass through the \<^verbatim>\<open>switch\<close> of \<^verbatim>\<open>write\<close> at offset \<open>i\<close>: the value of \<open>i\<close> after
  the case and the new state, an error, or \<open>None\<close> when a lexer does not return.
\<close>

definition dispatch :: "policy \<Rightarrow> jstext \<Rightarrow> nat \<Rightarrow> scanner \<Rightarrow> (error + nat \<times> scanner) option" where
  "dispatch sk data i s =
     (let c = get data i in
      if c = Some OPEN_BRACE then onOpenBlock data i TYPE_OBJECT OPEN_BRACE CLOSE_BRACE s
      else if c = Some OPEN_BRACKET then onOpenBlock data i TYPE_ARRAY OPEN_BRACKET CLOSE_BRACKET s
      else if c = Some CLOSE_BRACE \<or> c = Some CLOSE_BRACKET then
        (case onCloseBlock sk data i s of
           Inl err \<Rightarrow> Some (Inl err)
         | Inr s1 \<Rightarrow> Some (Inr (i, s1)))
      else if c = Some QUOTE then onQuote sk data i s
      else if c = Some TAB \<or> c = Some CARRIAGE_RETURN \<or> c = Some NEW_LINE \<or> c = Some SPACE then
        Some (Inr (i, s))
      else if c = Some COLON then Some (Inr (i, s\<lparr>postColon := True\<rparr>))
      else if c = Some COMMA then
        (case onComma s of
           Inl err \<Rightarrow> Some (Inl err)
         | Inr s1 \<Rightarrow> Some (Inr (i, s1)))
      else onPrimitive sk data i s)"

text \<open>
  The \<^verbatim>\<open>for\<close> loop of \<^verbatim>\<open>write\<close>, from offset \<open>i\<close>. The test of \<^verbatim>\<open>_skipped\<close> is made once
  per pass, before the \<^verbatim>\<open>switch\<close>.
\<close>

partial_function (option) write_loop ::
    "policy \<Rightarrow> jstext \<Rightarrow> nat \<Rightarrow> scanner \<Rightarrow> (error + scanner) option" where
  "write_loop sk data i s =
     (if i < length data \<and> \<not> skipped s then
        (case dispatch sk data i s of
           None \<Rightarrow> None
         | Some (Inl err) \<Rightarrow> Some (Inl err)
         | Some (Inr (i', s')) \<Rightarrow> write_loop sk data (i' + 1) s')
      else Some (Inr s))"

declare write_loop.simps [code]

definition skipCleanUp :: "scanner \<Rightarrow> scanner" where
  "skipCleanUp s =
     s\<lparr>stack := [], postColon := False, skipped := False, events := reset (events s)\<rparr>"

definition "write" :: "policy \<Rightarrow> jstext \<Rightarrow> scanner \<Rightarrow> (error + scanner) option" where
  "write sk data s =
     (case write_loop sk data 0 s of
        None \<Rightarrow> None
      | Some (Inl err) \<Rightarrow> Some (Inl err)
      | Some (Inr s1) \<Rightarrow> Some (Inr (if skipped s1 then skipCleanUp s1 else s1)))"

text \<open>
  The first \<open>n\<close> passes of the loop of \<^verbatim>\<open>write\<close> from offset \<open>i\<close>: the offset and the
  state at the head of the loop after them.
\<close>

fun passes :: "policy \<Rightarrow> jstext \<Rightarrow> nat \<Rightarrow> nat \<Rightarrow> scanner \<Rightarrow> (error + nat \<times> scanner) option" where
  "passes sk data 0 i s = Some (Inr (i, s))"
| "passes sk data (Suc n) i s =
     (if i < length data \<and> \<not> skipped s then
        (case dispatch sk data i s of
           None \<Rightarrow> None
         | Some (Inl err) \<Rightarrow> Some (Inl err)
         | Some (Inr (i', s')) \<Rightarrow> passes sk data n (i' + 1) s')
      else Some (Inr (i, s)))"

subsection \<open>Listeners used in the examples\<close>

text \<open>\<open>neverSkips\<close>: no listener calls \<^verbatim>\<open>skip()\<close>. \<open>skipsIn l\<close>: listener \<open>l\<close> calls
  \<^verbatim>\<open>skip()\<close> each time it is invoked, and no other listener does.\<close>

definition neverSkips :: policy where
  "neverSkips cs = False"

definition skipsIn :: "listener \<Rightarrow> policy" where
  "skipsIn l cs = (case rev cs of [] \<Rightarrow> False | c # _ \<Rightarrow> fst c = l)"

section \<open>Notions used to state the properties\<close>

text \<open>
  \<open>backslashes data from j\<close> is the number of consecutive backslashes that end right
  before offset \<open>j\<close>, counted back no further than offset \<open>from\<close>. A quote at \<open>j\<close> is
  escaped when this number is odd.
\<close>

definition backslashes :: "jstext \<Rightarrow> nat \<Rightarrow> nat \<Rightarrow> nat" where
  "backslashes data from j = length (takeWhile (\<lambda>c. c = BACKSLASH) (rev (slice data from j)))"

text \<open>
  \<open>firstClosing data from i y\<close>: \<open>y\<close> is the first offset at or after \<open>i\<close> that holds a
  quote with an even number of backslashes before it.
\<close>

definition firstClosing :: "jstext \<Rightarrow> nat \<Rightarrow> nat \<Rightarrow> nat \<Rightarrow> bool" where
  "firstClosing data from i y \<longleftrightarrow>
     i \<le> y \<and> y < length data \<and> data ! y = QUOTE \<and> even (backslashes data from y) \<and>
     (\<forall>k. i \<le> k \<and> k < y \<and> data ! k = QUOTE \<longrightarrow> odd (backslashes data from k))"

text \<open>
  The content of a terminated string: code units other than quote and backslash, and
  pairs of a backslash and any one code unit.
\<close>

fun strBody :: "jstext \<Rightarrow> bool" where
  "strBody [] = True"
| "strBody (c # cs) =
     (if c = QUOTE then False
      else if c = BACKSLASH then (case cs of [] \<Rightarrow> False | d # ds \<Rightarrow> strBody ds)
      else strBody cs)"

text \<open>
  The content of a balanced container for one pair of delimiters: terminated strings,
  nested blocks of the same pair, and any other code units (whitespace, commas, colons,
  primitives, the delimiters of the other pair). The content of every container of a
  JSON text has this form (lemma \<open>json_balanced\<close>).
\<close>

inductive balanced :: "code \<Rightarrow> code \<Rightarrow> jstext \<Rightarrow> bool" for openChar closeChar where
  Empty: "balanced openChar closeChar []"
| Other: "x \<noteq> QUOTE \<Longrightarrow> x \<noteq> openChar \<Longrightarrow> x \<noteq> closeChar \<Longrightarrow> balanced openChar closeChar xs \<Longrightarrow>
     balanced openChar closeChar (x # xs)"
| String: "strBody str \<Longrightarrow> balanced openChar closeChar xs \<Longrightarrow>
     balanced openChar closeChar (QUOTE # str @ QUOTE # xs)"
| Block: "balanced openChar closeChar xs \<Longrightarrow> balanced openChar closeChar ys \<Longrightarrow>
     balanced openChar closeChar (openChar # xs @ closeChar # ys)"

text \<open>The two pairs of delimiters that \<^verbatim>\<open>write\<close> passes to \<^verbatim>\<open>_onOpenBlock\<close>.\<close>

definition delimiters :: "code \<Rightarrow> code \<Rightarrow> bool" where
  "delimiters openChar closeChar \<longleftrightarrow>
     (openChar, closeChar) = (OPEN_BRACE, CLOSE_BRACE) \<or>
     (openChar, closeChar) = (OPEN_BRACKET, CLOSE_BRACKET)"

text \<open>
  The grammar of JSON texts, a little wider than the standard (a primitive is any token
  without structural code units, the escapes of a string are not checked, a comma may end
  a list): \<open>jvalue\<close> for a value with its surrounding whitespace, \<open>jelements\<close> for what
  stands between the brackets of an array, \<open>jmembers\<close> for what stands between the braces
  of an object.
\<close>

definition whitespace :: "jstext \<Rightarrow> bool" where
  "whitespace w \<longleftrightarrow> set w \<subseteq> {SPACE, TAB, CARRIAGE_RETURN, NEW_LINE}"

definition token :: "jstext \<Rightarrow> bool" where
  "token p \<longleftrightarrow> p \<noteq> [] \<and>
     set p \<inter> {QUOTE, OPEN_BRACE, CLOSE_BRACE, OPEN_BRACKET, CLOSE_BRACKET, COMMA, COLON,
              SPACE, TAB, CARRIAGE_RETURN, NEW_LINE} = {}"

inductive jvalue :: "jstext \<Rightarrow> bool"
  and jelements :: "jstext \<Rightarrow> bool"
  and jmembers :: "jstext \<Rightarrow> bool" where
  Primitive: "token p \<Longrightarrow> jvalue p"
| Str: "strBody str \<Longrightarrow> jvalue (QUOTE # str @ [QUOTE])"
| Array: "jelements es \<Longrightarrow> jvalue (OPEN_BRACKET # es @ [CLOSE_BRACKET])"
| Object: "jmembers ms \<Longrightarrow> jvalue (OPEN_BRACE # ms @ [CLOSE_BRACE])"
| Padded: "whitespace w \<Longrightarrow> jvalue v \<Longrightarrow> whitespace w' \<Longrightarrow> jvalue (w @ v @ w')"
| NoElement: "whitespace w \<Longrightarrow> jelements w"
| LastElement: "jvalue v \<Longrightarrow> jelements v"
| Element: "jvalue v \<Longrightarrow> jelements es \<Longrightarrow> jelements (v @ COMMA # es)"
| NoMember: "whitespace w \<Longrightarrow> jmembers w"
| LastMember: "whitespace w \<Longrightarrow> strBody k \<Longrightarrow> whitespace w' \<Longrightarrow> jvalue v \<Longrightarrow>
     jmembers (w @ QUOTE # k @ QUOTE # w' @ COLON # v)"
| Member: "whitespace w \<Longrightarrow> strBody k \<Longrightarrow> whitespace w' \<Longrightarrow> jvalue v \<Longrightarrow> jmembers ms \<Longrightarrow>
     jmembers (w @ QUOTE # k @ QUOTE # w' @ COLON # v @ COMMA # ms)"

text \<open>The code units that reach the \<^verbatim>\<open>default\<close> case of \<^verbatim>\<open>write\<close>.\<close>

definition primitiveLead :: "code option \<Rightarrow> bool" where
  "primitiveLead c \<longleftrightarrow>
     c \<noteq> Some OPEN_BRACE \<and> c \<noteq> Some OPEN_BRACKET \<and> c \<noteq> Some CLOSE_BRACE \<and>
     c \<noteq> Some CLOSE_BRACKET \<and> c \<noteq> Some QUOTE \<and> c \<noteq> Some TAB \<and>
     c \<noteq> Some CARRIAGE_RETURN \<and> c \<noteq> Some NEW_LINE \<and> c \<noteq> Some SPACE \<and>
     c \<noteq> Some COLON \<and> c \<noteq> Some COMMA"

text \<open>
  The cursor and the stack are congruent when the segments the cursor has gone down are
  the entry keys of the open frames, in the same order.
\<close>

definition congruent :: "scanner \<Rightarrow> bool" where
  "congruent s \<longleftrightarrow> cursor (events s) = map fkey (stack s)"

text \<open>
  What one pass may do to the stack and the cursor: leave both as deep as they were, push
  a frame with one \<^verbatim>\<open>down\<close>, or pop a frame with one \<^verbatim>\<open>up\<close>.
\<close>

definition paired :: "scanner \<Rightarrow> scanner \<Rightarrow> bool" where
  "paired s s' \<longleftrightarrow>
     (map fkey (stack s') = map fkey (stack s) \<and> cursor (events s') = cursor (events s)) \<or>
     (\<exists>f. stack s' = f # stack s \<and> cursor (events s') = fkey f # cursor (events s)) \<or>
     (\<exists>f k. stack s = f # stack s' \<and> cursor (events s) = k # cursor (events s'))"

text \<open>The calls made between two states belong to one emission: one value, some listeners.\<close>

definition oneEmission :: "scanner \<Rightarrow> scanner \<Rightarrow> bool" where
  "oneEmission s s' \<longleftrightarrow> (\<exists>v ls. calls s' = calls s @ map (\<lambda>l. (l, v)) ls)"



text \<open>The state in which \<open>emitUnder\<close> calls the listeners: the cursor one segment down.\<close>

definition under :: "jstext \<Rightarrow> scanner \<Rightarrow> scanner" where
  "under key s = s\<lparr>events := (events s)\<lparr>cursor := key # cursor (events s)\<rparr>\<rparr>"

definition effect :: "scanner \<Rightarrow> scanner \<Rightarrow> bool" where
  "effect s s' \<longleftrightarrow>
     tree (events s') = tree (events s) \<and> oneEmission s s' \<and> paired s s' \<and>
     (congruent s \<longrightarrow> congruent s')"

section \<open>Lemmas\<close>

subsection \<open>The lexers\<close>

lemma get_Some_iff: "get data i = Some c \<longleftrightarrow> i < length data \<and> data ! i = c"
  by (auto simp: get_def)

lemma get_None_iff: "get data i = None \<longleftrightarrow> length data \<le> i"
  by (auto simp: get_def)

lemma parsePrimitive_loop_sound:
  assumes "parsePrimitive_loop data i = Some y"
  shows "i \<le> y \<and> terminator (get data y) \<and> (\<forall>k. i \<le> k \<and> k < y \<longrightarrow> \<not> terminator (get data k))"
proof (rule parsePrimitive_loop.raw_induct[OF _ assms])
  fix f data i y
  assume ih: "\<And>data i y. f data i = Some y \<Longrightarrow>
     i \<le> y \<and> terminator (get data y) \<and> (\<forall>k. i \<le> k \<and> k < y \<longrightarrow> \<not> terminator (get data k))"
    and step: "(if terminator (get data i) then Some i else f data (i + 1)) = Some y"
  show "i \<le> y \<and> terminator (get data y) \<and> (\<forall>k. i \<le> k \<and> k < y \<longrightarrow> \<not> terminator (get data k))"
  proof (cases "terminator (get data i)")
    case True
    with step show ?thesis by auto
  next
    case False
    with step have "f data (i + 1) = Some y" by simp
    from ih[OF this] have r: "i + 1 \<le> y" "terminator (get data y)"
      "\<forall>k. i + 1 \<le> k \<and> k < y \<longrightarrow> \<not> terminator (get data k)" by auto
    have "\<not> terminator (get data k)" if "i \<le> k" "k < y" for k
    proof (cases "k = i")
      case True
      with False show ?thesis by simp
    next
      case False
      with that have "i + 1 \<le> k" by simp
      with r(3) that show ?thesis by blast
    qed
    with r show ?thesis by auto
  qed
qed

lemma parsePrimitive_loop_complete:
  "i \<le> y \<Longrightarrow> terminator (get data y) \<Longrightarrow> (\<forall>k. i \<le> k \<and> k < y \<longrightarrow> \<not> terminator (get data k)) \<Longrightarrow>
     parsePrimitive_loop data i = Some y"
proof (induction "y - i" arbitrary: i)
  case 0
  then show ?case by (subst parsePrimitive_loop.simps) simp
next
  case (Suc n)
  then have "\<not> terminator (get data i)" "i + 1 \<le> y" by auto
  moreover have "parsePrimitive_loop data (i + 1) = Some y"
    using Suc by (intro Suc(1)) auto
  ultimately show ?case by (subst parsePrimitive_loop.simps) simp
qed

lemma slice_Suc: "from \<le> j \<Longrightarrow> j < length data \<Longrightarrow> slice data from (Suc j) = slice data from j @ [data ! j]"
  by (simp add: slice_def Suc_diff_le take_Suc_conv_app_nth)

lemma backslashes_Suc:
  "from \<le> j \<Longrightarrow> j < length data \<Longrightarrow>
     backslashes data from (Suc j) = (if data ! j = BACKSLASH then Suc (backslashes data from j) else 0)"
  by (simp add: backslashes_def slice_Suc)

lemma backslashes_self [simp]: "backslashes data j j = 0"
  by (simp add: backslashes_def slice_def)

lemma parseString_loop_sound:
  assumes "parseString_loop data i = Some y"
  shows "\<forall>from\<le>i. (i < length data \<longrightarrow> even (backslashes data from i)) \<longrightarrow> firstClosing data from i y"
proof (rule parseString_loop.raw_induct[OF _ assms])
  fix f data i y
  assume ih: "\<And>data i y. f data i = Some y \<Longrightarrow>
      \<forall>from\<le>i. (i < length data \<longrightarrow> even (backslashes data from i)) \<longrightarrow> firstClosing data from i y"
    and step: "(if get data i = Some QUOTE then Some i
      else if get data i = Some BACKSLASH then f data (i + 1 + 1)
      else f data (i + 1)) = Some y"
  show "\<forall>from\<le>i. (i < length data \<longrightarrow> even (backslashes data from i)) \<longrightarrow> firstClosing data from i y"
  proof (intro allI impI)
    fix "from" assume fr: "from \<le> i" and ev: "i < length data \<longrightarrow> even (backslashes data from i)"
    consider (q) "get data i = Some QUOTE" | (b) "get data i = Some BACKSLASH"
      | (o) "get data i \<noteq> Some QUOTE" "get data i \<noteq> Some BACKSLASH" by blast
    then show "firstClosing data from i y"
    proof cases
      case q
      with step have "y = i" by simp
      with q ev show ?thesis by (auto simp: get_Some_iff firstClosing_def)
    next
      case b
      then have il: "i < length data" and di: "data ! i = BACKSLASH" by (simp_all add: get_Some_iff)
      from b step have "f data (i + 1 + 1) = Some y" by simp
      note ih1 = ih[OF this, rule_format, of "from"]
      have o1: "odd (backslashes data from (Suc i))"
        using backslashes_Suc[OF fr il] di ev il by simp
      have "i + 1 + 1 < length data \<longrightarrow> even (backslashes data from (i + 1 + 1))"
      proof
        assume "i + 1 + 1 < length data"
        then have "Suc i < length data" by simp
        from backslashes_Suc[OF _ this, of "from"] fr o1
        show "even (backslashes data from (i + 1 + 1))" by (simp split: if_splits)
      qed
      with ih1 fr have fc: "firstClosing data from (i + 1 + 1) y" by simp
      then have r: "i + 1 + 1 \<le> y" "y < length data" "data ! y = QUOTE" "even (backslashes data from y)"
        and r5: "\<And>k. i + 1 + 1 \<le> k \<Longrightarrow> k < y \<Longrightarrow> data ! k = QUOTE \<Longrightarrow> odd (backslashes data from k)"
        by (simp_all add: firstClosing_def)
      have "odd (backslashes data from k)" if h: "i \<le> k" "k < y" "data ! k = QUOTE" for k
      proof -
        have "k \<noteq> i" using h di by auto
        then have "k = Suc i \<or> i + 1 + 1 \<le> k" using h by linarith
        then show ?thesis using o1 r5[of k] h by auto
      qed
      with r show ?thesis by (simp add: firstClosing_def)
    next
      case o
      with step have "f data (i + 1) = Some y" by simp
      note ih1 = ih[OF this, rule_format, of "from"]
      have "i + 1 < length data \<longrightarrow> even (backslashes data from (i + 1))"
      proof
        assume "i + 1 < length data"
        then have il: "i < length data" by simp
        with o have "data ! i \<noteq> BACKSLASH" by (simp add: get_Some_iff)
        with backslashes_Suc[OF fr il] show "even (backslashes data from (i + 1))" by simp
      qed
      with ih1 fr have fc: "firstClosing data from (i + 1) y" by simp
      then have r: "i + 1 \<le> y" "y < length data" "data ! y = QUOTE" "even (backslashes data from y)"
        and r5: "\<And>k. i + 1 \<le> k \<Longrightarrow> k < y \<Longrightarrow> data ! k = QUOTE \<Longrightarrow> odd (backslashes data from k)"
        by (simp_all add: firstClosing_def)
      have "odd (backslashes data from k)" if "i \<le> k" "k < y" "data ! k = QUOTE" for k
      proof -
        have "k \<noteq> i" using that o r by (auto simp: get_Some_iff)
        then have "i + 1 \<le> k" using that by linarith
        then show ?thesis using r5 that by simp
      qed
      with r show ?thesis by (simp add: firstClosing_def)
    qed
  qed
qed

lemma parseString_loop_complete:
  assumes "from \<le> i" "even (backslashes data from i)" "firstClosing data from i y"
  shows "parseString_loop data i = Some y"
  using assms
proof (induction "y - i" arbitrary: i rule: less_induct)
  case less
  from less.prems(3) have p: "i \<le> y" "y < length data" "data ! y = QUOTE" "even (backslashes data from y)"
    and p5: "\<And>k. i \<le> k \<Longrightarrow> k < y \<Longrightarrow> data ! k = QUOTE \<Longrightarrow> odd (backslashes data from k)"
    by (simp_all add: firstClosing_def)
  have il: "i < length data" using p by simp
  consider (q) "data ! i = QUOTE" | (b) "data ! i = BACKSLASH"
    | (o) "data ! i \<noteq> QUOTE" "data ! i \<noteq> BACKSLASH" by blast
  then show ?case
  proof cases
    case q
    have "i = y"
    proof (rule ccontr)
      assume "i \<noteq> y"
      with p have "i < y" by simp
      with p5[of i] q have "odd (backslashes data from i)" by simp
      with less.prems(2) show False by simp
    qed
    with q il show ?thesis by (subst parseString_loop.simps) (simp add: get_def)
  next
    case b
    have o1: "odd (backslashes data from (Suc i))"
      using backslashes_Suc[OF less.prems(1) il] b less.prems(2) by simp
    have "i \<noteq> y" using b p(3) by auto
    moreover have "Suc i \<noteq> y" using o1 p(4) by auto
    ultimately have le: "i + 1 + 1 \<le> y" using p(1) by linarith
    then have sl: "Suc i < length data" using p(2) by simp
    have e2: "even (backslashes data from (i + 1 + 1))"
      using backslashes_Suc[OF _ sl, of "from"] less.prems(1) o1 by (simp split: if_splits)
    have fc: "firstClosing data from (i + 1 + 1) y"
      using p p5 le by (simp add: firstClosing_def)
    have "parseString_loop data (i + 1 + 1) = Some y"
      using less.prems(1) le e2 fc by (intro less.hyps) simp_all
    with b il show ?thesis by (subst parseString_loop.simps) (simp add: get_def)
  next
    case o
    have "i \<noteq> y" using o p(3) by auto
    then have le: "i + 1 \<le> y" using p(1) by linarith
    have e1: "even (backslashes data from (i + 1))"
      using backslashes_Suc[OF less.prems(1) il] o by simp
    have fc: "firstClosing data from (i + 1) y"
      using p p5 le by (simp add: firstClosing_def)
    have "parseString_loop data (i + 1) = Some y"
      using less.prems(1) le e1 fc by (intro less.hyps) simp_all
    with o il show ?thesis by (subst parseString_loop.simps) (simp add: get_def)
  qed
qed

lemma backslashes_after_quote:
  assumes "get data index = Some QUOTE" "index < k" "k \<le> length data"
  shows "backslashes data 0 k = backslashes data (index + 1) k"
  using assms(2,3)
proof (induction k)
  case 0
  then show ?case by simp
next
  case (Suc k)
  from assms(1) have il: "index < length data" and q: "data ! index = QUOTE"
    by (simp_all add: get_Some_iff)
  show ?case
  proof (cases "k = index")
    case True
    with backslashes_Suc[of 0 index data] il q show ?thesis by simp
  next
    case False
    with Suc.prems have lt: "index < k" "k < length data" by simp_all
    with Suc.IH have "backslashes data 0 k = backslashes data (index + 1) k" by simp
    with backslashes_Suc[of 0 k data] backslashes_Suc[of "index + 1" k data] lt
    show ?thesis by simp
  qed
qed

lemma firstClosing_after_quote:
  assumes "get data index = Some QUOTE"
  shows "firstClosing data 0 (index + 1) e = firstClosing data (index + 1) (index + 1) e"
proof -
  have "backslashes data 0 k = backslashes data (index + 1) k" if "index + 1 \<le> k" "k \<le> e" "e < length data" for k
    using backslashes_after_quote[OF assms, of k] that by simp
  then show ?thesis
    unfolding firstClosing_def by (auto simp del: One_nat_def)
qed

lemma firstClosing_exists:
  assumes "i \<le> j" "j < length data" "data ! j = QUOTE" "even (backslashes data from j)"
  shows "\<exists>e. firstClosing data from i e"
proof -
  let ?P = "\<lambda>k. i \<le> k \<and> k < length data \<and> data ! k = QUOTE \<and> even (backslashes data from k)"
  have "?P j" using assms by simp
  then have l: "?P (LEAST k. ?P k)" by (rule LeastI)
  have "odd (backslashes data from k)" if h: "i \<le> k" "k < (LEAST k. ?P k)" "data ! k = QUOTE" for k
  proof (rule ccontr)
    assume "\<not> odd (backslashes data from k)"
    with h l have "?P k" by simp
    then have "(LEAST k. ?P k) \<le> k" by (rule Least_le)
    with h(2) show False by simp
  qed
  with l have "firstClosing data from i (LEAST k. ?P k)"
    unfolding firstClosing_def by blast
  then show ?thesis ..
qed

lemma parseString_Some_iff:
  "parseString data index = Some e \<longleftrightarrow> firstClosing data (index + 1) (index + 1) e"
proof
  assume "parseString data index = Some e"
  then have "parseString_loop data (index + 1) = Some e" by (simp add: parseString_def)
  from parseString_loop_sound[OF this, rule_format, of "index + 1"]
  show "firstClosing data (index + 1) (index + 1) e" by simp
next
  assume "firstClosing data (index + 1) (index + 1) e"
  then have "parseString_loop data (index + 1) = Some e"
    by (intro parseString_loop_complete[of "index + 1"]) simp_all
  then show "parseString data index = Some e" by (simp add: parseString_def)
qed

lemma parseString_returns_iff:
  "parseString data index \<noteq> None \<longleftrightarrow>
     (\<exists>j. index < j \<and> get data j = Some QUOTE \<and> even (backslashes data (index + 1) j))"
proof
  assume "parseString data index \<noteq> None"
  then obtain e where "parseString data index = Some e" by auto
  then have "firstClosing data (index + 1) (index + 1) e" by (simp only: parseString_Some_iff)
  then have "index < e \<and> get data e = Some QUOTE \<and> even (backslashes data (index + 1) e)"
    by (simp add: firstClosing_def get_Some_iff)
  then show "\<exists>j. index < j \<and> get data j = Some QUOTE \<and> even (backslashes data (index + 1) j)" ..
next
  assume "\<exists>j. index < j \<and> get data j = Some QUOTE \<and> even (backslashes data (index + 1) j)"
  then obtain j where "index < j" "get data j = Some QUOTE" "even (backslashes data (index + 1) j)"
    by blast
  then have "\<exists>e. firstClosing data (index + 1) (index + 1) e"
    by (intro firstClosing_exists[of _ j]) (simp_all add: get_Some_iff)
  then show "parseString data index \<noteq> None" by (auto simp: parseString_Some_iff)
qed

lemma parsePrimitive_returns_iff:
  "parsePrimitive data index \<noteq> None \<longleftrightarrow> (\<exists>j\<ge>index. terminator (get data j))"
proof
  assume "parsePrimitive data index \<noteq> None"
  then obtain e where "parsePrimitive_loop data index = Some e" by (auto simp: parsePrimitive_def)
  from parsePrimitive_loop_sound[OF this] show "\<exists>j\<ge>index. terminator (get data j)" by blast
next
  assume "\<exists>j\<ge>index. terminator (get data j)"
  then obtain j where j: "index \<le> j \<and> terminator (get data j)" by blast
  let ?P = "\<lambda>k. index \<le> k \<and> terminator (get data k)"
  from j have l: "?P (LEAST k. ?P k)" by (rule LeastI)
  have "\<not> terminator (get data k)" if h: "index \<le> k" "k < (LEAST k. ?P k)" for k
  proof
    assume "terminator (get data k)"
    with h have "?P k" by simp
    then have "(LEAST k. ?P k) \<le> k" by (rule Least_le)
    with h show False by simp
  qed
  with l have "parsePrimitive_loop data index = Some (LEAST k. ?P k)"
    by (intro parsePrimitive_loop_complete) auto
  then show "parsePrimitive data index \<noteq> None" by (simp add: parsePrimitive_def)
qed

lemma get_drop: "k \<le> j \<Longrightarrow> get (drop k data) (j - k) = get data j"
  by (auto simp: get_def)

lemma get_in_set: "get data j = Some c \<Longrightarrow> c \<in> set data"
  by (auto simp: get_Some_iff)

subsection \<open>The block-skip scanner\<close>

lemma get_append_length [simp]: "get (pre @ c # post) (length pre) = Some c"
  by (simp add: get_def)

lemma parseString_loop_strBody:
  "strBody str \<Longrightarrow> parseString_loop (pre @ str @ QUOTE # post) (length pre) = Some (length pre + length str)"
proof (induction str arbitrary: pre rule: strBody.induct)
  case 1
  show ?case by (subst parseString_loop.simps) simp
next
  case (2 c cs)
  show ?case
  proof (cases "c = BACKSLASH")
    case True
    with 2(3) obtain d ds where cs: "cs = d # ds" and b: "strBody ds"
      by (auto split: list.splits if_splits)
    have "c \<noteq> QUOTE" using True by simp
    from 2(1)[OF this True cs b, of "pre @ [c, d]"]
    have "parseString_loop (pre @ c # d # ds @ QUOTE # post) (length pre + 1 + 1) = Some (length pre + length (c # cs))"
      by (simp add: cs)
    then show ?thesis using True
      by (subst parseString_loop.simps) (simp add: cs)
  next
    case False
    with 2(3) have q: "c \<noteq> QUOTE" and b: "strBody cs" by (auto split: if_splits)
    from 2(2)[OF q False b, of "pre @ [c]"]
    have "parseString_loop (pre @ c # cs @ QUOTE # post) (length pre + 1) = Some (length pre + length (c # cs))"
      by simp
    then show ?thesis using False q
      by (subst parseString_loop.simps) simp
  qed
qed

lemma skipBlock_loop_close:
  "openChar \<noteq> closeChar \<Longrightarrow> closeChar \<noteq> QUOTE \<Longrightarrow> 0 < d \<Longrightarrow>
     skipBlock_loop (pre @ closeChar # post) openChar closeChar d (length pre) =
     skipBlock_loop (pre @ closeChar # post) openChar closeChar (d - 1) (length pre + 1)"
  by (subst skipBlock_loop.simps) simp

lemma skipBlock_loop_balanced:
  assumes "balanced openChar closeChar body" "openChar \<noteq> closeChar" "openChar \<noteq> QUOTE" "closeChar \<noteq> QUOTE"
  shows "0 < d \<Longrightarrow> skipBlock_loop (pre @ body @ post) openChar closeChar d (length pre) =
           skipBlock_loop (pre @ body @ post) openChar closeChar d (length pre + length body)"
  using assms(1)
proof (induction arbitrary: pre post d)
  case Empty
  show ?case by simp
next
  case (Other x xs)
  have "skipBlock_loop (pre @ (x # xs) @ post) openChar closeChar d (length pre) =
        skipBlock_loop (pre @ (x # xs) @ post) openChar closeChar d (length pre + 1)"
    using Other by (subst skipBlock_loop.simps) simp
  also have "\<dots> = skipBlock_loop ((pre @ [x]) @ xs @ post) openChar closeChar d (length (pre @ [x]))"
    by simp
  also have "\<dots> = skipBlock_loop ((pre @ [x]) @ xs @ post) openChar closeChar d (length (pre @ [x]) + length xs)"
    using Other by blast
  finally show ?case by (simp add: ac_simps)
next
  case (String str xs)
  have ps: "parseString (pre @ (QUOTE # str @ QUOTE # xs) @ post) (length pre) = Some (length pre + 1 + length str)"
    using parseString_loop_strBody[OF String(1), of "pre @ [QUOTE]" "xs @ post"]
    by (simp add: parseString_def)
  have "skipBlock_loop (pre @ (QUOTE # str @ QUOTE # xs) @ post) openChar closeChar d (length pre) =
        skipBlock_loop (pre @ (QUOTE # str @ QUOTE # xs) @ post) openChar closeChar d (length pre + length str + 1 + 1)"
    using String(4) ps by (subst skipBlock_loop.simps) (simp add: add.commute add.left_commute)
  also have "\<dots> = skipBlock_loop ((pre @ QUOTE # str @ [QUOTE]) @ xs @ post) openChar closeChar d (length (pre @ QUOTE # str @ [QUOTE]))"
    by simp
  also have "\<dots> = skipBlock_loop ((pre @ QUOTE # str @ [QUOTE]) @ xs @ post) openChar closeChar d (length (pre @ QUOTE # str @ [QUOTE]) + length xs)"
    using String by blast
  finally show ?case by (simp add: ac_simps)
next
  case (Block xs ys)
  let ?data = "pre @ (openChar # xs @ closeChar # ys) @ post"
  have "skipBlock_loop ?data openChar closeChar d (length pre) =
        skipBlock_loop ?data openChar closeChar (d + 1) (length pre + 1)"
    using Block(5) assms(3) by (subst skipBlock_loop.simps) simp
  also have "\<dots> = skipBlock_loop ?data openChar closeChar (d + 1) (length pre + 1 + length xs)"
    using Block(3)[of "d + 1" "pre @ [openChar]" "closeChar # ys @ post"] by simp
  also have "\<dots> = skipBlock_loop ?data openChar closeChar d (length pre + 1 + length xs + 1)"
    using skipBlock_loop_close[OF assms(2,4), of "d + 1" "pre @ openChar # xs" "ys @ post"] by simp
  also have "\<dots> = skipBlock_loop ?data openChar closeChar d (length pre + 1 + length xs + 1 + length ys)"
    using Block(4)[OF Block(5), of "pre @ openChar # xs @ [closeChar]" post] by simp
  finally show ?case by (simp add: ac_simps)
qed

lemma skipBlock_balanced:
  assumes "balanced openChar closeChar body" "openChar \<noteq> closeChar" "openChar \<noteq> QUOTE" "closeChar \<noteq> QUOTE"
  shows "skipBlock (pre @ openChar # body @ closeChar # post) (length pre) openChar closeChar =
         Some (length pre + length body + 1)"
proof -
  let ?data = "pre @ openChar # body @ closeChar # post"
  have "skipBlock_loop ?data openChar closeChar 1 (length pre + 1) =
        skipBlock_loop ?data openChar closeChar 1 (length pre + 1 + length body)"
    using skipBlock_loop_balanced[OF assms, of 1 "pre @ [openChar]" "closeChar # post"] by simp
  also have "\<dots> = skipBlock_loop ?data openChar closeChar 0 (length pre + 1 + length body + 1)"
    using skipBlock_loop_close[OF assms(2,4), of 1 "pre @ openChar # body" post] by simp
  also have "\<dots> = Some (length pre + length body + 1)"
    by (subst skipBlock_loop.simps) simp
  finally show ?thesis by (simp add: skipBlock_def)
qed

lemma balanced_example: \<open>balanced OPEN_BRACE CLOSE_BRACE (codes ''"}{":{"b":"'' @ codes [CHR 0x5C] @ codes ''"}"},"c":[{}]'')\<close>
proof -
  have s1: \<open>strBody (codes ''}{'')\<close> by (simp add: codes_def)
  have s2: \<open>strBody (codes ''b'')\<close> by (simp add: codes_def)
  have s3: \<open>strBody (codes [CHR 0x5C] @ codes ''"}'')\<close> by (simp add: codes_def)
  have s4: \<open>strBody (codes ''c'')\<close> by (simp add: codes_def)
  have b0: "balanced OPEN_BRACE CLOSE_BRACE []" by (rule balanced.Empty)
  have b1: \<open>balanced OPEN_BRACE CLOSE_BRACE (codes '']'')\<close>
    by (simp add: codes_def balanced.Other b0)
  have b2: \<open>balanced OPEN_BRACE CLOSE_BRACE (codes ''[{}]'')\<close>
    using balanced.Other[OF _ _ _ balanced.Block[OF b0 b1], of OPEN_BRACKET]
    by (simp add: codes_def)
  have b3: \<open>balanced OPEN_BRACE CLOSE_BRACE (codes '',"c":[{}]'')\<close>
    using balanced.Other[OF _ _ _ balanced.String[OF s4 balanced.Other[OF _ _ _ b2, of COLON]], of COMMA]
    by (simp add: codes_def)
  have b4: \<open>balanced OPEN_BRACE CLOSE_BRACE (codes ''"b":"'' @ codes [CHR 0x5C] @ codes ''"}"'')\<close>
    using balanced.String[OF s2 balanced.Other[OF _ _ _ balanced.String[OF s3 b0], of COLON]]
    by (simp add: codes_def)
  have b5: \<open>balanced OPEN_BRACE CLOSE_BRACE (codes '':{"b":"'' @ codes [CHR 0x5C] @ codes ''"}"},"c":[{}]'')\<close>
    using balanced.Other[OF _ _ _ balanced.Block[OF b4 b3], of COLON]
    by (simp add: codes_def)
  show ?thesis
    using balanced.String[OF s1 b5] by (simp add: codes_def)
qed

lemma balanced_append:
  "balanced openChar closeChar xs \<Longrightarrow> balanced openChar closeChar ys \<Longrightarrow>
     balanced openChar closeChar (xs @ ys)"
proof (induction rule: balanced.induct)
  case Empty
  then show ?case by simp
next
  case (Other x xs)
  then show ?case by (simp add: balanced.Other)
next
  case (String str xs)
  from balanced.String[OF String(1) String(3)[OF String(4)]] show ?case by simp
next
  case (Block xs zs)
  from balanced.Block[OF Block(1) Block(4)[OF Block(5)]] show ?case by simp
qed

lemma balanced_plain:
  "set p \<inter> {QUOTE, openChar, closeChar} = {} \<Longrightarrow> balanced openChar closeChar p"
  by (induction p) (auto intro: balanced.intros)

lemma balanced_whitespace:
  "delimiters openChar closeChar \<Longrightarrow> whitespace w \<Longrightarrow> balanced openChar closeChar w"
  by (rule balanced_plain) (auto simp: whitespace_def delimiters_def)

lemma balanced_token:
  "delimiters openChar closeChar \<Longrightarrow> token p \<Longrightarrow> balanced openChar closeChar p"
  by (rule balanced_plain) (auto simp: token_def delimiters_def)

lemma balanced_string:
  "strBody str \<Longrightarrow> balanced openChar closeChar xs \<Longrightarrow> balanced openChar closeChar (QUOTE # str @ QUOTE # xs)"
  by (rule balanced.String)

lemma balanced_container:
  assumes "delimiters openChar closeChar" "delimiters o' c'" "balanced openChar closeChar xs"
  shows "balanced openChar closeChar (o' # xs @ [c'])"
proof (cases "o' = openChar")
  case True
  with assms(1,2) have "c' = closeChar" by (auto simp: delimiters_def)
  with True balanced.Block[OF assms(3) balanced.Empty] show ?thesis by simp
next
  case False
  with assms(1,2) have ne: "o' \<noteq> QUOTE" "o' \<noteq> openChar" "o' \<noteq> closeChar"
    "c' \<noteq> QUOTE" "c' \<noteq> openChar" "c' \<noteq> closeChar"
    by (auto simp: delimiters_def)
  have "balanced openChar closeChar [c']"
    using ne by (intro balanced.Other balanced.Empty)
  from balanced_append[OF assms(3) this] have "balanced openChar closeChar (xs @ [c'])" .
  with ne show ?thesis by (intro balanced.Other)
qed

lemma json_balanced:
  assumes d: "delimiters openChar closeChar"
  shows "jvalue v \<Longrightarrow> balanced openChar closeChar v"
    and "jelements es \<Longrightarrow> balanced openChar closeChar es"
    and "jmembers ms \<Longrightarrow> balanced openChar closeChar ms"
proof (induction rule: jvalue_jelements_jmembers.inducts)
  case (Primitive p)
  then show ?case by (simp add: balanced_token[OF d])
next
  case (Str str)
  from balanced.String[OF this balanced.Empty] show ?case by simp
next
  case (Array es)
  then show ?case
    using balanced_container[OF d, of OPEN_BRACKET CLOSE_BRACKET es] by (simp add: delimiters_def)
next
  case (Object ms)
  then show ?case
    using balanced_container[OF d, of OPEN_BRACE CLOSE_BRACE ms] by (simp add: delimiters_def)
next
  case (Padded w v w')
  then show ?case by (simp add: balanced_append balanced_whitespace[OF d])
next
  case (NoElement w)
  then show ?case by (simp add: balanced_whitespace[OF d])
next
  case (LastElement v)
  then show ?case by simp
next
  case (Element v es)
  have c: "COMMA \<noteq> QUOTE" "COMMA \<noteq> openChar" "COMMA \<noteq> closeChar"
    using d by (auto simp: delimiters_def)
  with Element have "balanced openChar closeChar (COMMA # es)" by (intro balanced.Other)
  with Element show ?case by (simp add: balanced_append)
next
  case (NoMember w)
  then show ?case by (simp add: balanced_whitespace[OF d])
next
  case (LastMember w k w' v)
  have c: "COLON \<noteq> QUOTE" "COLON \<noteq> openChar" "COLON \<noteq> closeChar"
    using d by (auto simp: delimiters_def)
  with LastMember have "balanced openChar closeChar (COLON # v)" by (intro balanced.Other)
  with LastMember have "balanced openChar closeChar (w' @ COLON # v)"
    by (simp add: balanced_append balanced_whitespace[OF d])
  from balanced.String[OF LastMember(2) this] LastMember(1) show ?case
    by (simp add: balanced_append balanced_whitespace[OF d])
next
  case (Member w k w' v ms)
  have c: "COMMA \<noteq> QUOTE" "COMMA \<noteq> openChar" "COMMA \<noteq> closeChar"
          "COLON \<noteq> QUOTE" "COLON \<noteq> openChar" "COLON \<noteq> closeChar"
    using d by (auto simp: delimiters_def)
  with Member have "balanced openChar closeChar (COMMA # ms)" by (intro balanced.Other)
  with Member have "balanced openChar closeChar (v @ COMMA # ms)" by (simp add: balanced_append)
  with c have "balanced openChar closeChar (COLON # v @ COMMA # ms)" by (intro balanced.Other)
  with Member have "balanced openChar closeChar (w' @ COLON # v @ COMMA # ms)"
    by (simp add: balanced_append balanced_whitespace[OF d])
  from balanced.String[OF Member(2) this] Member(1) show ?case
    by (simp add: balanced_append balanced_whitespace[OF d])
qed

subsection \<open>The handlers and the loop\<close>

lemma fold_invoke:
  "stack (fold (invoke sk v) ls s) = stack s \<and>
   postColon (fold (invoke sk v) ls s) = postColon s \<and>
   lastString (fold (invoke sk v) ls s) = lastString s \<and>
   events (fold (invoke sk v) ls s) = events s \<and>
   calls (fold (invoke sk v) ls s) = calls s @ map (\<lambda>l. (l, v)) ls"
  by (induction ls arbitrary: s) (simp_all add: invoke_def skip_def Let_def)

lemma emit_fields [simp]:
  "stack (emit sk v s) = stack s" "postColon (emit sk v s) = postColon s"
  "lastString (emit sk v s) = lastString s" "events (emit sk v s) = events s"
  by (simp_all add: emit_def fold_invoke split: option.split)

lemma emit_calls: "\<exists>ls. calls (emit sk v s) = calls s @ map (\<lambda>l. (l, v)) ls"
proof (cases "current (events s)")
  case None
  then have "calls (emit sk v s) = calls s @ map (\<lambda>l. (l, v)) []" by (simp add: emit_def)
  then show ?thesis by blast
next
  case (Some n)
  then have "calls (emit sk v s) = calls s @ map (\<lambda>l. (l, v)) (listeners n)"
    by (simp add: emit_def fold_invoke)
  then show ?thesis by blast
qed

lemma emitUnder_eq:
  "emitUnder sk key v s =
     Inr (if hasNode (events s) key \<and> hasListener (events (under key s))
          then (emit sk v (under key s))\<lparr>events := events s\<rparr> else s)"
proof (cases "hasNode (events s) key")
  case False
  then show ?thesis by (simp add: emitUnder_def)
next
  case True
  then have d: "down (events s) key = Some ((events s)\<lparr>cursor := key # cursor (events s)\<rparr>)"
    by (simp add: down_def)
  show ?thesis
  proof (cases "hasListener (events (under key s))")
    case True
    with \<open>hasNode (events s) key\<close> d show ?thesis
      by (simp add: emitUnder_def under_def up_def)
  next
    case False
    with \<open>hasNode (events s) key\<close> d show ?thesis
      by (simp add: emitUnder_def under_def up_def)
  qed
qed

lemma oneEmission_refl: "calls s' = calls s \<Longrightarrow> oneEmission s s'"
  unfolding oneEmission_def by (rule exI[of _ "[]"], rule exI[of _ "[]"]) simp

lemma oneEmission_same [simp]: "oneEmission s s"
  by (simp add: oneEmission_refl)

lemma oneEmission_emit: "calls s1 = calls s \<Longrightarrow> oneEmission s (emit sk v s1)"
  unfolding oneEmission_def using emit_calls[of sk v s1] by auto

lemma emitUnder_Inr:
  obtains s' where "emitUnder sk key v s = Inr s'" "stack s' = stack s"
    "postColon s' = postColon s" "lastString s' = lastString s" "events s' = events s"
    "oneEmission s s'"
proof -
  let ?s' = "if hasNode (events s) key \<and> hasListener (events (under key s))
          then (emit sk v (under key s))\<lparr>events := events s\<rparr> else s"
  have 1: "emitUnder sk key v s = Inr ?s'" by (rule emitUnder_eq)
  have 2: "stack ?s' = stack s" "postColon ?s' = postColon s" "lastString ?s' = lastString s"
    "events ?s' = events s" by (simp_all add: under_def)
  have "oneEmission s (emit sk v (under key s))"
    by (rule oneEmission_emit) (simp add: under_def)
  then have "oneEmission s ((emit sk v (under key s))\<lparr>events := events s\<rparr>)"
    by (simp add: oneEmission_def)
  then have 3: "oneEmission s ?s'" by (simp add: oneEmission_refl)
  from 1 2 3 show ?thesis by (rule that)
qed

lemma emitPrimitiveOrString_cases:
  obtains (fault) "\<not> postColon s" "stack s = []"
      "\<And>sk. emitPrimitiveOrString sk data a b s = Inl TypeError"
  | (ok) s' where "postColon s \<or> stack s \<noteq> []" "emitPrimitiveOrString sk data a b s = Inr s'"
      "stack s' = stack s" "postColon s' = postColon s" "lastString s' = lastString s"
      "events s' = events s" "oneEmission s s'"
proof (cases "postColon s")
  case True
  obtain s' where e: "emitUnder sk (getKeyForPrimitiveObject data s) (slice data a b) s = Inr s'"
    and f: "stack s' = stack s" "postColon s' = postColon s" "lastString s' = lastString s"
      "events s' = events s" "oneEmission s s'" by (rule emitUnder_Inr)
  from True e have "emitPrimitiveOrString sk data a b s = Inr s'"
    by (simp add: emitPrimitiveOrString_def)
  with True f show ?thesis by (intro ok) simp_all
next
  case False
  show ?thesis
  proof (cases "stack s")
    case Nil
    with False have "\<And>sk. emitPrimitiveOrString sk data a b s = Inl TypeError"
      by (simp add: emitPrimitiveOrString_def getFrame_def)
    with False Nil show ?thesis by (intro fault) simp_all
  next
    case (Cons frame rest)
    show ?thesis
    proof (cases "ftype frame = TYPE_ARRAY")
      case True
      obtain s' where e: "emitUnder sk (getKeyForPrimitiveArray frame) (slice data a b) s = Inr s'"
        and f: "stack s' = stack s" "postColon s' = postColon s" "lastString s' = lastString s"
          "events s' = events s" "oneEmission s s'" by (rule emitUnder_Inr)
      from True False Cons e have "emitPrimitiveOrString sk data a b s = Inr s'"
        by (simp add: emitPrimitiveOrString_def getFrame_def)
      with Cons f show ?thesis by (intro ok) simp_all
    next
      case nt: False
      with False Cons have "emitPrimitiveOrString sk data a b s = Inr s"
        by (simp add: emitPrimitiveOrString_def getFrame_def)
      with Cons show ?thesis by (intro ok[where s'=s]) simp_all
    qed
  qed
qed

lemma onCloseBlock_cases:
  obtains (empty) "stack s = []" "\<And>sk. onCloseBlock sk data index s = Inl TypeError"
  | (fault) frame rest where "stack s = frame # rest" "cursor (events s) = []"
      "\<And>sk. onCloseBlock sk data index s = Inl TrieFault"
  | (ok) frame rest k ks s' where "stack s = frame # rest" "cursor (events s) = k # ks"
      "onCloseBlock sk data index s = Inr s'" "stack s' = rest" "cursor (events s') = ks"
      "tree (events s') = tree (events s)" "oneEmission s s'"
proof (cases "stack s")
  case Nil
  then have "\<And>sk. onCloseBlock sk data index s = Inl TypeError" by (simp add: onCloseBlock_def)
  with Nil show ?thesis by (rule empty)
next
  case (Cons frame rest)
  let ?s1 = "s\<lparr>stack := rest\<rparr>"
  let ?s2 = "\<lambda>sk. if hasListener (events ?s1)
            then emit sk (slice data (fstart frame) (index + 1)) ?s1 else ?s1"
  have ev: "events (?s2 sk) = events s" for sk by simp
  have st: "stack (?s2 sk) = rest" for sk by simp
  have em: "oneEmission s (?s2 sk)" for sk
    by (simp add: oneEmission_emit oneEmission_refl)
  have r: "onCloseBlock sk data index s =
      (case up (events s) of None \<Rightarrow> Inl TrieFault | Some e \<Rightarrow> Inr ((?s2 sk)\<lparr>events := e\<rparr>))" for sk
    using Cons ev[of sk] by (simp add: onCloseBlock_def Let_def)
  show ?thesis
  proof (cases "cursor (events s)")
    case Nil
    then have "\<And>sk. onCloseBlock sk data index s = Inl TrieFault"
      by (simp add: r up_def)
    with Cons Nil show ?thesis by (rule fault)
  next
    case c: (Cons k ks)
    let ?s' = "(?s2 sk)\<lparr>events := (events s)\<lparr>cursor := ks\<rparr>\<rparr>"
    have 1: "onCloseBlock sk data index s = Inr ?s'" using c by (simp add: r up_def)
    have 2: "stack ?s' = rest" "cursor (events ?s') = ks" "tree (events ?s') = tree (events s)"
      by simp_all
    have 3: "oneEmission s ?s'" using em[of sk] by (simp add: oneEmission_def)
    from Cons c 1 2 3 show ?thesis by (rule ok)
  qed
qed

lemma onOpenBlock_cases:
  obtains (diverges) "\<not> hasNode (events s) (getKey data s)" "skipBlock data index openChar closeChar = None"
      "onOpenBlock data index type openChar closeChar s = None"
  | (skipped) i where "\<not> hasNode (events s) (getKey data s)" "skipBlock data index openChar closeChar = Some i"
      "onOpenBlock data index type openChar closeChar s = Some (Inr (i, s))"
  | (pushed) f s' where "hasNode (events s) (getKey data s)"
      "onOpenBlock data index type openChar closeChar s = Some (Inr (index, s'))"
      "fkey f = getKey data s" "stack s' = f # stack s" "cursor (events s') = fkey f # cursor (events s)"
      "tree (events s') = tree (events s)" "calls s' = calls s" "\<not> postColon s'"
proof (cases "hasNode (events s) (getKey data s)")
  case False
  show ?thesis
  proof (cases "skipBlock data index openChar closeChar")
    case None
    with False have "onOpenBlock data index type openChar closeChar s = None"
      by (simp add: onOpenBlock_def)
    with False None show ?thesis by (rule diverges)
  next
    case (Some i)
    with False have "onOpenBlock data index type openChar closeChar s = Some (Inr (i, s))"
      by (simp add: onOpenBlock_def)
    with False Some show ?thesis by (rule skipped)
  qed
next
  case True
  let ?f = "\<lparr>ftype = type, fstart = index, fkey = getKey data s, findex = 0\<rparr>"
  let ?s' = "s\<lparr>events := (events s)\<lparr>cursor := getKey data s # cursor (events s)\<rparr>,
                 stack := ?f # stack s, postColon := False\<rparr>"
  from True have "onOpenBlock data index type openChar closeChar s = Some (Inr (index, ?s'))"
    by (simp add: onOpenBlock_def down_def Let_def)
  moreover have "fkey ?f = getKey data s" "stack ?s' = ?f # stack s"
    "cursor (events ?s') = fkey ?f # cursor (events s)"
    "tree (events ?s') = tree (events s)" "calls ?s' = calls s" "\<not> postColon ?s'" by simp_all
  ultimately show ?thesis using True by (intro pushed[of ?s' ?f])
qed

lemma onComma_cases:
  obtains (empty) "stack s = []" "onComma s = Inl TypeError"
  | (ok) s' where "onComma s = Inr s'" "map fkey (stack s') = map fkey (stack s)"
      "events s' = events s" "calls s' = calls s"
proof (cases "stack s")
  case Nil
  then have "onComma s = Inl TypeError" by (simp add: onComma_def)
  with Nil show ?thesis by (rule empty)
next
  case (Cons frame rest)
  let ?s' = "if ftype frame = TYPE_ARRAY
          then s\<lparr>stack := frame\<lparr>findex := findex frame + 1\<rparr> # rest\<rparr> else s"
  have "onComma s = Inr ?s'" using Cons by (simp add: onComma_def)
  moreover have "map fkey (stack ?s') = map fkey (stack s)" "events ?s' = events s"
    "calls ?s' = calls s" using Cons by simp_all
  ultimately show ?thesis by (rule ok)
qed

lemma effect_same_shape:
  "map fkey (stack s') = map fkey (stack s) \<Longrightarrow> events s' = events s \<Longrightarrow> oneEmission s s' \<Longrightarrow>
     effect s s'"
  by (simp add: effect_def paired_def congruent_def)

lemma emitPrimitiveOrString_Inl_iff:
  "emitPrimitiveOrString sk data a b s = Inl err \<longleftrightarrow> err = TypeError \<and> \<not> postColon s \<and> stack s = []"
  by (rule emitPrimitiveOrString_cases[where s=s and sk=sk and data=data and a=a and b=b]) auto

lemma onQuote_effect:
  assumes "onQuote sk data index s = Some (Inr (i', s'))"
  shows "effect s s'"
proof -
  from assms obtain strEnd s1 where
    e: "emitPrimitiveOrString sk data (index + 1) strEnd s = Inr s1"
    and s': "s' = s1\<lparr>postColon := False, lastString := Some (index + 1, strEnd)\<rparr>"
    by (auto simp: onQuote_def Let_def split: option.splits sum.splits)
  have "stack s1 = stack s \<and> events s1 = events s \<and> oneEmission s s1"
    by (rule emitPrimitiveOrString_cases[where s=s and sk=sk and data=data and a="index + 1" and b=strEnd]) (use e in auto)
  then show ?thesis
    unfolding s' by (intro effect_same_shape) (simp_all add: oneEmission_def)
qed

lemma onPrimitive_effect:
  assumes "onPrimitive sk data index s = Some (Inr (i', s'))"
  shows "effect s s'"
proof -
  from assms obtain primEnd s1 where
    e: "emitPrimitiveOrString sk data index primEnd s = Inr s1"
    and s': "s' = s1\<lparr>postColon := False\<rparr>"
    by (auto simp: onPrimitive_def split: option.splits sum.splits)
  have "stack s1 = stack s \<and> events s1 = events s \<and> oneEmission s s1"
    by (rule emitPrimitiveOrString_cases[where s=s and sk=sk and data=data and a=index and b=primEnd]) (use e in auto)
  then show ?thesis
    unfolding s' by (intro effect_same_shape) (simp_all add: oneEmission_def)
qed

lemma onCloseBlock_effect:
  assumes "onCloseBlock sk data index s = Inr s'"
  shows "effect s s'"
proof (rule onCloseBlock_cases[where s=s and data=data and index=index and sk=sk])
  assume "\<And>sk. onCloseBlock sk data index s = Inl TypeError"
  with assms show ?thesis by simp
next
  fix frame rest
  assume "\<And>sk. onCloseBlock sk data index s = Inl TrieFault"
  with assms show ?thesis by simp
next
  fix frame rest k ks s2
  assume a: "stack s = frame # rest" "cursor (events s) = k # ks"
    "onCloseBlock sk data index s = Inr s2" "stack s2 = rest" "cursor (events s2) = ks"
    "tree (events s2) = tree (events s)" "oneEmission s s2"
  with assms have "s2 = s'" by simp
  with a show ?thesis by (auto simp: effect_def paired_def congruent_def)
qed

lemma onOpenBlock_effect:
  assumes "onOpenBlock data index type openChar closeChar s = Some (Inr (i', s'))"
  shows "effect s s'"
proof (rule onOpenBlock_cases[where s=s and data=data and index=index and openChar=openChar and closeChar=closeChar and type=type])
  assume "onOpenBlock data index type openChar closeChar s = None"
  with assms show ?thesis by simp
next
  fix i assume "onOpenBlock data index type openChar closeChar s = Some (Inr (i, s))"
  with assms have "s' = s" by simp
  then show ?thesis by (simp add: effect_same_shape)
next
  fix f s2
  assume a: "onOpenBlock data index type openChar closeChar s = Some (Inr (index, s2))"
    "stack s2 = f # stack s" "cursor (events s2) = fkey f # cursor (events s)"
    "tree (events s2) = tree (events s)" "calls s2 = calls s"
  with assms have "s2 = s'" by simp
  with a show ?thesis by (auto simp: effect_def paired_def congruent_def oneEmission_refl)
qed

lemma onComma_effect:
  assumes "onComma s = Inr s'"
  shows "effect s s'"
proof (rule onComma_cases[where s=s])
  assume "onComma s = Inl TypeError"
  with assms show ?thesis by simp
next
  fix s2 assume a: "onComma s = Inr s2" "map fkey (stack s2) = map fkey (stack s)"
      "events s2 = events s" "calls s2 = calls s"
  with assms have "s2 = s'" by simp
  with a show ?thesis by (simp add: effect_same_shape oneEmission_refl)
qed

lemma dispatch_effect:
  assumes "dispatch sk data i s = Some (Inr (i', s'))"
  shows "effect s s'"
proof -
  let ?c = "get data i"
  consider (ob) "?c = Some OPEN_BRACE" | (ok) "?c = Some OPEN_BRACKET"
    | (cl) "?c = Some CLOSE_BRACE \<or> ?c = Some CLOSE_BRACKET"
    | (q) "?c = Some QUOTE"
    | (ws) "?c = Some TAB \<or> ?c = Some CARRIAGE_RETURN \<or> ?c = Some NEW_LINE \<or> ?c = Some SPACE"
    | (colon) "?c = Some COLON" | (comma) "?c = Some COMMA"
    | (prim) "?c \<noteq> Some OPEN_BRACE" "?c \<noteq> Some OPEN_BRACKET" "?c \<noteq> Some CLOSE_BRACE"
        "?c \<noteq> Some CLOSE_BRACKET" "?c \<noteq> Some QUOTE" "?c \<noteq> Some TAB" "?c \<noteq> Some CARRIAGE_RETURN"
        "?c \<noteq> Some NEW_LINE" "?c \<noteq> Some SPACE" "?c \<noteq> Some COLON" "?c \<noteq> Some COMMA"
    by blast
  then show ?thesis
  proof cases
    case ob
    with assms show ?thesis by (simp add: dispatch_def onOpenBlock_effect)
  next
    case ok
    with assms show ?thesis by (simp add: dispatch_def onOpenBlock_effect)
  next
    case cl
    with assms obtain s1 where "onCloseBlock sk data i s = Inr s1" "s' = s1"
      by (auto simp: dispatch_def split: sum.splits)
    then show ?thesis by (simp add: onCloseBlock_effect)
  next
    case q
    with assms show ?thesis by (simp add: dispatch_def onQuote_effect)
  next
    case ws
    with assms have "s' = s" by (auto simp: dispatch_def)
    then show ?thesis by (simp add: effect_same_shape)
  next
    case colon
    with assms have "s' = s\<lparr>postColon := True\<rparr>" by (auto simp: dispatch_def)
    then show ?thesis by (simp add: effect_same_shape oneEmission_refl)
  next
    case comma
    with assms obtain s1 where "onComma s = Inr s1" "s' = s1"
      by (auto simp: dispatch_def split: sum.splits)
    then show ?thesis by (simp add: onComma_effect)
  next
    case prim
    with assms have "onPrimitive sk data i s = Some (Inr (i', s'))" by (simp add: dispatch_def)
    then show ?thesis by (rule onPrimitive_effect)
  qed
qed

lemma onCloseBlock_TrieFault:
  "congruent s \<Longrightarrow> onCloseBlock sk data index s \<noteq> Inl TrieFault"
  by (rule onCloseBlock_cases[where s=s and data=data and index=index and sk=sk])
     (auto simp: congruent_def)

lemma onOpenBlock_TrieFault:
  "onOpenBlock data index type openChar closeChar s \<noteq> Some (Inl TrieFault)"
  by (rule onOpenBlock_cases[where s=s and data=data and index=index and openChar=openChar
        and closeChar=closeChar and type=type]) auto

lemma onQuote_TrieFault: "onQuote sk data index s \<noteq> Some (Inl TrieFault)"
  by (auto simp: onQuote_def Let_def emitPrimitiveOrString_Inl_iff split: option.splits sum.splits)

lemma onPrimitive_TrieFault: "onPrimitive sk data index s \<noteq> Some (Inl TrieFault)"
  by (auto simp: onPrimitive_def emitPrimitiveOrString_Inl_iff split: option.splits sum.splits)

lemma onComma_TrieFault: "onComma s \<noteq> Inl TrieFault"
  by (rule onComma_cases[where s=s]) auto

lemma dispatch_TrieFault:
  assumes "congruent s"
  shows "dispatch sk data i s \<noteq> Some (Inl TrieFault)"
  using onCloseBlock_TrieFault[OF assms, of sk data i] onOpenBlock_TrieFault[of data i _ _ _ s]
    onQuote_TrieFault[of sk data i s] onPrimitive_TrieFault[of sk data i s] onComma_TrieFault[of s]
  by (auto simp: dispatch_def Let_def split: sum.splits)








lemma passes_congruent:
  "congruent s0 \<Longrightarrow> passes sk data n i0 s0 = Some (Inr (i, s)) \<Longrightarrow> congruent s"
proof (induction n arbitrary: i0 s0)
  case 0
  then show ?case by simp
next
  case (Suc n)
  show ?case
  proof (cases "i0 < length data \<and> \<not> skipped s0")
    case False
    with Suc.prems show ?thesis by auto
  next
    case True
    with Suc.prems(2) obtain i1 s1 where d: "dispatch sk data i0 s0 = Some (Inr (i1, s1))"
      and p: "passes sk data n (i1 + 1) s1 = Some (Inr (i, s))"
      by (auto split: option.splits sum.splits)
    from dispatch_effect[OF d] Suc.prems(1) have "congruent s1" by (simp add: effect_def)
    from Suc.IH[OF this p] show ?thesis .
  qed
qed

lemma passes_write_loop:
  "passes sk data n i0 s0 = Some (Inr (i, s)) \<Longrightarrow> write_loop sk data i0 s0 = write_loop sk data i s"
proof (induction n arbitrary: i0 s0)
  case 0
  then show ?case by simp
next
  case (Suc n)
  show ?case
  proof (cases "i0 < length data \<and> \<not> skipped s0")
    case False
    with Suc.prems show ?thesis by auto
  next
    case True
    with Suc.prems obtain i1 s1 where d: "dispatch sk data i0 s0 = Some (Inr (i1, s1))"
      and p: "passes sk data n (i1 + 1) s1 = Some (Inr (i, s))"
      by (auto split: option.splits sum.splits)
    have "write_loop sk data i0 s0 = write_loop sk data (i1 + 1) s1"
      using True d by (subst write_loop.simps) simp
    with Suc.IH[OF p] show ?thesis by simp
  qed
qed


lemma write_passes_None:
  assumes "passes sk data n 0 s0 = Some (Inr (i, s))" "i < length data" "\<not> skipped s"
    "dispatch sk data i s = None"
  shows "write sk data s0 = None"
proof -
  have "write_loop sk data i s = None"
    using assms(2,3,4) by (subst write_loop.simps) simp
  with passes_write_loop[OF assms(1)] show ?thesis by (simp add: write_def)
qed















section \<open>The properties\<close>

subsection \<open>C1: every occurrence of a registered path is reported once\<close>

text \<open>
  C1 says that for every well-formed document each occurrence of a registered path is
  passed to the listeners of that path exactly once, as the raw text of the value. The code
  misses this on the document \<^verbatim>\<open>[{"x":{}},5]\<close> with listener 0 on the path of element 0
  and listener 1 on the path of element 1: the member \<^verbatim>\<open>"x":{}\<close> is skipped, the skipping
  branch of \<^verbatim>\<open>_onOpenBlock\<close> returns before \<^verbatim>\<open>_postColon\<close> is reset, and the element \<^verbatim>\<open>5\<close> is
  then looked up under the stale key \<^verbatim>\<open>x\<close> instead of the index \<^verbatim>\<open>1\<close>. Listener 1 is never
  called. On \<^verbatim>\<open>[{"x":7},5]\<close>, where nothing is skipped, it is called with \<^verbatim>\<open>5\<close>.
\<close>

theorem element_after_skipped_member_is_missed:
  \<open>write neverSkips (codes ''[{"x":{}},5]'')
       (on [ROOT_KEY, codes ''1''] 1 (on [ROOT_KEY, codes ''0''] 0 FastJson)) =
     Some (Inr
       \<lparr>stack = [], postColon = False, lastString = Some (3, 4), skipped = False,
        events = \<lparr>tree = Node [] [(ROOT_KEY, Node []
                    [(codes ''0'', Node [0] []), (codes ''1'', Node [1] [])])], cursor = []\<rparr>,
        calls = [(0, codes ''{"x":{}}'')]\<rparr>) \<and>
   write neverSkips (codes ''[{"x":7},5]'')
       (on [ROOT_KEY, codes ''1''] 1 (on [ROOT_KEY, codes ''0''] 0 FastJson)) =
     Some (Inr
       \<lparr>stack = [], postColon = False, lastString = Some (3, 4), skipped = False,
        events = \<lparr>tree = Node [] [(ROOT_KEY, Node []
                    [(codes ''0'', Node [0] []), (codes ''1'', Node [1] [])])], cursor = []\<rparr>,
        calls = [(0, codes ''{"x":7}''), (1, codes ''5'')]\<rparr>)\<close>
  by code_simp

subsection \<open>C2: a listener on the root path\<close>

text \<open>
  C2 says that a listener on the root path receives the whole document once, also when the
  document is a single top-level scalar. For a top-level scalar the stack is empty, and
  \<^verbatim>\<open>_emitPrimitiveOrString\<close> reads \<^verbatim>\<open>frame.type\<close> of the \<^verbatim>\<open>undefined\<close> that \<^verbatim>\<open>_getFrame\<close> returns:
  \<^verbatim>\<open>write\<close> throws a TypeError and the listener is not called, for the string \<^verbatim>\<open>"abc"\<close> as for
  the primitive \<^verbatim>\<open>true\<close> followed by a space.
\<close>

theorem top_level_scalar_throws:
  \<open>write neverSkips (codes ''"abc"'') (on [ROOT_KEY] 0 FastJson) = Some (Inl TypeError) \<and>
   write neverSkips (codes ''true '') (on [ROOT_KEY] 0 FastJson) = Some (Inl TypeError)\<close>
  by code_simp

subsection \<open>C3: the state after a cancelled write\<close>

text \<open>
  C3, as amended: after a write in which \<^verbatim>\<open>skip()\<close> was observed (the loop ends with
  \<^verbatim>\<open>_skipped\<close> set), \<^verbatim>\<open>write\<close> returns with the frame stack empty, the post-colon flag and
  the skip flag false and the cursor of the trie at the root; the trie, the calls made and
  the offsets of the last lexed string are what they were when the loop ended.
\<close>

theorem cancelled_write_is_cleaned_up:
  assumes "write_loop sk data 0 s = Some (Inr s1)" and "skipped s1"
  shows "\<exists>s2. write sk data s = Some (Inr s2) \<and> stack s2 = [] \<and> \<not> postColon s2 \<and>
           \<not> skipped s2 \<and> cursor (events s2) = [] \<and> tree (events s2) = tree (events s1) \<and>
           lastString s2 = lastString s1 \<and> calls s2 = calls s1"
  using assms by (simp add: write_def skipCleanUp_def reset_def)

text \<open>
  C3, witness: the array \<^verbatim>\<open>["a"]\<close> with a listener on element 0 that calls \<^verbatim>\<open>skip()\<close>.
\<close>

theorem cancelled_write_is_cleaned_up_witness:
  \<open>write_loop (skipsIn 0) (codes ''["a"]'') 0 (on [ROOT_KEY, codes ''0''] 0 FastJson) =
     Some (Inr
       \<lparr>stack = [\<lparr>ftype = TYPE_ARRAY, fstart = 0, fkey = ROOT_KEY, findex = 0\<rparr>],
        postColon = False, lastString = Some (2, 3), skipped = True,
        events = \<lparr>tree = Node [] [(ROOT_KEY, Node [] [(codes ''0'', Node [0] [])])],
                  cursor = [ROOT_KEY]\<rparr>,
        calls = [(0, codes ''a'')]\<rparr>) \<and>
   (\<exists>s2. write (skipsIn 0) (codes ''["a"]'') (on [ROOT_KEY, codes ''0''] 0 FastJson) = Some (Inr s2) \<and>
      stack s2 = [] \<and> \<not> postColon s2 \<and> \<not> skipped s2 \<and> cursor (events s2) = [] \<and>
      lastString s2 = Some (2, 3) \<and> calls s2 = [(0, codes ''a'')])\<close>
proof -
  let ?s1 = \<open>\<lparr>stack = [\<lparr>ftype = TYPE_ARRAY, fstart = 0, fkey = ROOT_KEY, findex = 0\<rparr>],
        postColon = False, lastString = Some (2, 3), skipped = True,
        events = \<lparr>tree = Node [] [(ROOT_KEY, Node [] [(codes ''0'', Node [0] [])])],
                  cursor = [ROOT_KEY]\<rparr>,
        calls = [(0, codes ''a'')]\<rparr>\<close>
  have l: \<open>write_loop (skipsIn 0) (codes ''["a"]'') 0 (on [ROOT_KEY, codes ''0''] 0 FastJson) =
     Some (Inr ?s1)\<close> by code_simp
  have k: "skipped ?s1" by simp
  from cancelled_write_is_cleaned_up[OF l k] l show ?thesis by auto
qed

text \<open>
  C3, counterexample to the claim as written, which has the offsets of the last lexed
  string cleared: \<^verbatim>\<open>_skipCleanUp\<close> does not touch \<^verbatim>\<open>_lastString\<close>, and after the cancelled
  write of \<^verbatim>\<open>["a"]\<close> they are still 2 and 3.
\<close>

theorem cancelled_write_keeps_lastString_counterexample:
  \<open>write (skipsIn 0) (codes ''["a"]'') (on [ROOT_KEY, codes ''0''] 0 FastJson) =
     Some (Inr
       \<lparr>stack = [], postColon = False, lastString = Some (2, 3), skipped = False,
        events = \<lparr>tree = Node [] [(ROOT_KEY, Node [] [(codes ''0'', Node [0] [])])], cursor = []\<rparr>,
        calls = [(0, codes ''a'')]\<rparr>)\<close>
  by code_simp

subsection \<open>C4: a container without a node is skipped\<close>

text \<open>
  C4: when the pass of \<^verbatim>\<open>write\<close> stands on the opening delimiter of a balanced container
  (as every container of a JSON text is) whose entry key has no node under the cursor,
  the pass returns the offset of the matching closing delimiter and the state it started
  from: no frame is pushed, the cursor does not move, and no listener is called, whatever
  the trie holds elsewhere. The loop goes on behind the container.
\<close>

theorem unregistered_container_is_skipped:
  assumes "delimiters openChar closeChar"
    and "balanced openChar closeChar body"
    and "data = pre @ openChar # body @ closeChar # post"
    and "\<not> hasNode (events s) (getKey data s)"
    and "\<not> skipped s"
  shows "dispatch sk data (length pre) s = Some (Inr (length pre + length body + 1, s)) \<and>
         write_loop sk data (length pre) s = write_loop sk data (length pre + length body + 2) s"
proof -
  from assms(1) have ne: "openChar \<noteq> closeChar" "openChar \<noteq> QUOTE" "closeChar \<noteq> QUOTE"
    by (auto simp: delimiters_def)
  have sb: "skipBlock data (length pre) openChar closeChar = Some (length pre + length body + 1)"
    unfolding assms(3) by (rule skipBlock_balanced[OF assms(2) ne])
  have g: "get data (length pre) = Some openChar" by (simp add: assms(3))
  have ob: "onOpenBlock data (length pre) type openChar closeChar s =
      Some (Inr (length pre + length body + 1, s))" for type
    using assms(4) sb by (simp add: onOpenBlock_def)
  have d: "dispatch sk data (length pre) s = Some (Inr (length pre + length body + 1, s))"
    using assms(1) g ob by (auto simp: dispatch_def delimiters_def)
  have "length pre < length data" by (simp add: assms(3))
  with d assms(5) have "write_loop sk data (length pre) s =
      write_loop sk data (length pre + length body + 2) s"
    by (subst write_loop.simps) simp
  with d show ?thesis by simp
qed

text \<open>
  C4, witness: in \<^verbatim>\<open>{"a":{"b":1},"b":2}\<close> with a listener on the path \<^verbatim>\<open>b\<close> only, the object
  under \<^verbatim>\<open>a\<close> is skipped although it has a member \<^verbatim>\<open>b\<close>.
\<close>

theorem unregistered_container_is_skipped_witness:
  \<open>passes neverSkips (codes ''{"a":{"b":1},"b":2}'') 3 0 (on [ROOT_KEY, codes ''b''] 0 FastJson) =
     Some (Inr (5,
       \<lparr>stack = [\<lparr>ftype = TYPE_OBJECT, fstart = 0, fkey = ROOT_KEY, findex = 0\<rparr>],
        postColon = True, lastString = Some (2, 3), skipped = False,
        events = \<lparr>tree = Node [] [(ROOT_KEY, Node [] [(codes ''b'', Node [0] [])])],
                  cursor = [ROOT_KEY]\<rparr>,
        calls = []\<rparr>)) \<and>
   dispatch neverSkips (codes ''{"a":{"b":1},"b":2}'') 5
       \<lparr>stack = [\<lparr>ftype = TYPE_OBJECT, fstart = 0, fkey = ROOT_KEY, findex = 0\<rparr>],
        postColon = True, lastString = Some (2, 3), skipped = False,
        events = \<lparr>tree = Node [] [(ROOT_KEY, Node [] [(codes ''b'', Node [0] [])])],
                  cursor = [ROOT_KEY]\<rparr>,
        calls = []\<rparr> =
     Some (Inr (11,
       \<lparr>stack = [\<lparr>ftype = TYPE_OBJECT, fstart = 0, fkey = ROOT_KEY, findex = 0\<rparr>],
        postColon = True, lastString = Some (2, 3), skipped = False,
        events = \<lparr>tree = Node [] [(ROOT_KEY, Node [] [(codes ''b'', Node [0] [])])],
                  cursor = [ROOT_KEY]\<rparr>,
        calls = []\<rparr>))\<close>
proof -
  let ?d = \<open>codes ''{"a":{"b":1},"b":2}''\<close>
  let ?s = \<open>\<lparr>stack = [\<lparr>ftype = TYPE_OBJECT, fstart = 0, fkey = ROOT_KEY, findex = 0\<rparr>],
        postColon = True, lastString = Some (2, 3), skipped = False,
        events = \<lparr>tree = Node [] [(ROOT_KEY, Node [] [(codes ''b'', Node [0] [])])],
                  cursor = [ROOT_KEY]\<rparr>,
        calls = []\<rparr>\<close>
  have p: \<open>passes neverSkips ?d 3 0 (on [ROOT_KEY, codes ''b''] 0 FastJson) = Some (Inr (5, ?s))\<close>
    by code_simp
  have c: "delimiters OPEN_BRACE CLOSE_BRACE" by (simp add: delimiters_def)
  have \<open>jmembers ([] @ QUOTE # codes ''b'' @ QUOTE # [] @ COLON # codes ''1'')\<close>
    by (intro jvalue_jelements_jmembers.intros) (simp_all add: codes_def whitespace_def token_def)
  then have \<open>jmembers (codes ''"b":1'')\<close> by (simp add: codes_def)
  then have b: \<open>balanced OPEN_BRACE CLOSE_BRACE (codes ''"b":1'')\<close>
    by (rule json_balanced(3)[OF c])
  have d: \<open>?d = codes ''{"a":'' @ OPEN_BRACE # codes ''"b":1'' @ CLOSE_BRACE # codes '',"b":2}''\<close>
    by (simp add: codes_def)
  have h: \<open>\<not> hasNode (events ?s) (getKey ?d ?s)\<close> by code_simp
  have k: \<open>\<not> skipped ?s\<close> by simp
  have l1: \<open>length (codes ''{"a":'') = 5\<close> by (simp add: codes_def)
  have l2: \<open>length (codes ''"b":1'') = 5\<close> by (simp add: codes_def)
  from unregistered_container_is_skipped[OF c b d h k, of neverSkips, unfolded l1 l2]
  have \<open>dispatch neverSkips ?d 5 ?s = Some (Inr (11, ?s))\<close> by simp
  with p show ?thesis by (simp only: simp_thms)
qed

subsection \<open>C5: cancellation\<close>




subsection \<open>C6: the block-skip scanner\<close>

text \<open>
  C6: started at the opening delimiter of a balanced container, \<^verbatim>\<open>_skipBlock\<close> returns the
  offset of the matching closing delimiter. Strings are passed as a whole, so the
  delimiters inside them count for nothing.
\<close>

theorem skipBlock_returns_matching_close:
  assumes "balanced openChar closeChar body"
    and "openChar \<noteq> closeChar" and "openChar \<noteq> QUOTE" and "closeChar \<noteq> QUOTE"
  shows "skipBlock (pre @ openChar # body @ closeChar # post) (length pre) openChar closeChar =
         Some (length pre + length body + 1)"
  using assms by (rule skipBlock_balanced)

text \<open>
  C6, witness: the first element of an array is an object with the key \<^verbatim>\<open>}{\<close>, a string
  value that holds an escaped quote and a closing brace, and nested containers.
\<close>

theorem skipBlock_returns_matching_close_witness:
  \<open>skipBlock (codes ''[{"}{":{"b":"'' @ codes [CHR 0x5C] @ codes ''"}"},"c":[{}]},{}]'') 1 OPEN_BRACE CLOSE_BRACE
     = Some 27\<close>
proof -
  have ne: "OPEN_BRACE \<noteq> CLOSE_BRACE" "OPEN_BRACE \<noteq> QUOTE" "CLOSE_BRACE \<noteq> QUOTE" by simp_all
  from skipBlock_returns_matching_close[OF balanced_example ne, of \<open>codes ''[''\<close> \<open>codes '',{}]''\<close>]
  show ?thesis by (simp add: codes_def)
qed

subsection \<open>C7: the string lexer\<close>

text \<open>
  C7: called at an opening quote that is followed somewhere by a quote with an even number
  of backslashes before it, \<^verbatim>\<open>_parseString\<close> returns the first such quote; the quotes it
  passes on the way all have an odd number of backslashes before them.
\<close>

theorem parseString_first_unescaped_quote:
  assumes "get data index = Some QUOTE"
    and "index < j" and "get data j = Some QUOTE" and "even (backslashes data 0 j)"
  shows "\<exists>e. parseString data index = Some e \<and> firstClosing data 0 (index + 1) e"
proof -
  from assms(2,3,4) have "\<exists>e. firstClosing data 0 (index + 1) e"
    by (intro firstClosing_exists[of _ j]) (simp_all add: get_Some_iff)
  then obtain e where e: "firstClosing data 0 (index + 1) e" ..
  then have "firstClosing data (index + 1) (index + 1) e"
    by (simp only: firstClosing_after_quote[OF assms(1)])
  then have "parseString_loop data (index + 1) = Some e"
    by (intro parseString_loop_complete[of "index + 1"]) simp_all
  with e show ?thesis by (auto simp: parseString_def)
qed

text \<open>
  C7, witness: in \<^verbatim>\<open>"a\"b"\<close> the quote at offset 3 is escaped and the lexer returns 5.
\<close>

theorem parseString_first_unescaped_quote_witness:
  \<open>get (codes (''"a'' @ [CHR 0x5C] @ ''"b"'')) 0 = Some QUOTE \<and>
   get (codes (''"a'' @ [CHR 0x5C] @ ''"b"'')) 5 = Some QUOTE \<and>
   even (backslashes (codes (''"a'' @ [CHR 0x5C] @ ''"b"'')) 0 5) \<and>
   odd (backslashes (codes (''"a'' @ [CHR 0x5C] @ ''"b"'')) 0 3) \<and>
   parseString (codes (''"a'' @ [CHR 0x5C] @ ''"b"'')) 0 = Some 5\<close>
proof -
  let ?d = \<open>codes (''"a'' @ [CHR 0x5C] @ ''"b"'')\<close>
  have h1: "get ?d 0 = Some QUOTE" by code_simp
  have h3: "get ?d 5 = Some QUOTE" by code_simp
  have h4: "even (backslashes ?d 0 5)" by code_simp
  have h5: "odd (backslashes ?d 0 3)" by code_simp
  have h6: "parseString ?d 0 = Some 5" by code_simp
  from parseString_first_unescaped_quote[OF h1 _ h3 h4]
  have "\<exists>e. parseString ?d 0 = Some e \<and> firstClosing ?d 0 (0 + 1) e" by simp
  with h1 h3 h4 h5 h6 show ?thesis by simp
qed

subsection \<open>C8: the cursor and the stack\<close>

text \<open>
  C8: starting from a state in which cursor and stack are congruent, at the head of every
  pass of the loop of \<^verbatim>\<open>write\<close>, on any input, the segments the cursor has gone down are the
  entry keys of the open frames, so there are as many of them as frames; the next pass
  never calls \<^verbatim>\<open>up\<close> at the root or \<^verbatim>\<open>down\<close> to a missing child; and it pushes a frame with one
  \<^verbatim>\<open>down\<close>, pops a frame with one \<^verbatim>\<open>up\<close>, or leaves both as deep as they were.
\<close>

theorem cursor_congruent_with_stack:
  assumes "congruent s0" and "passes sk data n i0 s0 = Some (Inr (i, s))"
  shows "cursor (events s) = map fkey (stack s) \<and>
         length (cursor (events s)) = length (stack s) \<and>
         dispatch sk data i s \<noteq> Some (Inl TrieFault) \<and>
         (\<forall>i' s'. dispatch sk data i s = Some (Inr (i', s')) \<longrightarrow> paired s s')"
proof -
  from passes_congruent[OF assms] have c: "congruent s" .
  then have "cursor (events s) = map fkey (stack s)" by (simp add: congruent_def)
  moreover from this have "length (cursor (events s)) = length (stack s)" by simp
  moreover from c have "dispatch sk data i s \<noteq> Some (Inl TrieFault)" by (rule dispatch_TrieFault)
  moreover have "\<forall>i' s'. dispatch sk data i s = Some (Inr (i', s')) \<longrightarrow> paired s s'"
    using dispatch_effect[of sk data i s] by (simp add: effect_def)
  ultimately show ?thesis by simp
qed

text \<open>
  C8, witness: seven passes into \<^verbatim>\<open>{"a":[1,{"b":2}]}\<close>, three frames deep.
\<close>

theorem cursor_congruent_with_stack_witness:
  \<open>passes neverSkips (codes ''{"a":[1,{"b":2}]}'') 7 0
       (on [ROOT_KEY, codes ''a'', codes ''1'', codes ''b''] 0 FastJson) =
     Some (Inr (9,
       \<lparr>stack = [\<lparr>ftype = TYPE_OBJECT, fstart = 8, fkey = codes ''1'', findex = 0\<rparr>,
                 \<lparr>ftype = TYPE_ARRAY, fstart = 5, fkey = codes ''a'', findex = 1\<rparr>,
                 \<lparr>ftype = TYPE_OBJECT, fstart = 0, fkey = ROOT_KEY, findex = 0\<rparr>],
        postColon = False, lastString = Some (2, 3), skipped = False,
        events = \<lparr>tree = Node [] [(ROOT_KEY, Node [] [(codes ''a'', Node []
                    [(codes ''1'', Node [] [(codes ''b'', Node [0] [])])])])],
                  cursor = [codes ''1'', codes ''a'', ROOT_KEY]\<rparr>,
        calls = []\<rparr>)) \<and>
   congruent (on [ROOT_KEY, codes ''a'', codes ''1'', codes ''b''] 0 FastJson)\<close>
proof -
  let ?d = \<open>codes ''{"a":[1,{"b":2}]}''\<close>
  let ?init = \<open>on [ROOT_KEY, codes ''a'', codes ''1'', codes ''b''] 0 FastJson\<close>
  let ?s = \<open>\<lparr>stack = [\<lparr>ftype = TYPE_OBJECT, fstart = 8, fkey = codes ''1'', findex = 0\<rparr>,
                 \<lparr>ftype = TYPE_ARRAY, fstart = 5, fkey = codes ''a'', findex = 1\<rparr>,
                 \<lparr>ftype = TYPE_OBJECT, fstart = 0, fkey = ROOT_KEY, findex = 0\<rparr>],
        postColon = False, lastString = Some (2, 3), skipped = False,
        events = \<lparr>tree = Node [] [(ROOT_KEY, Node [] [(codes ''a'', Node []
                    [(codes ''1'', Node [] [(codes ''b'', Node [0] [])])])])],
                  cursor = [codes ''1'', codes ''a'', ROOT_KEY]\<rparr>,
        calls = []\<rparr>\<close>
  have c: "congruent ?init" by code_simp
  have p: "passes neverSkips ?d 7 0 ?init = Some (Inr (9, ?s))" by code_simp
  from cursor_congruent_with_stack[OF c p] have "length (cursor (events ?s)) = length (stack ?s)"
    by blast
  with c p show ?thesis by simp
qed

subsection \<open>C9: the post-colon flag\<close>

text \<open>
  C9 says that the post-colon flag is false after every scalar and every container
  boundary, also after the opening delimiter of a skipped container. The skipping branch
  of \<^verbatim>\<open>_onOpenBlock\<close> returns before the assignment \<^verbatim>\<open>this._postColon = false\<close>: in
  \<^verbatim>\<open>{"a":{}}\<close> with a listener on the root only, the flag is still set after the pass over
  the skipped object, and \<^verbatim>\<open>_onCloseBlock\<close> does not reset it either, so it is still set when
  \<^verbatim>\<open>write\<close> returns.
\<close>

theorem skipped_container_leaves_postColon_set:
  \<open>passes neverSkips (codes ''{"a":{}}'') 4 0 (on [ROOT_KEY] 0 FastJson) =
     Some (Inr (7,
       \<lparr>stack = [\<lparr>ftype = TYPE_OBJECT, fstart = 0, fkey = ROOT_KEY, findex = 0\<rparr>],
        postColon = True, lastString = Some (2, 3), skipped = False,
        events = \<lparr>tree = Node [] [(ROOT_KEY, Node [0] [])], cursor = [ROOT_KEY]\<rparr>,
        calls = []\<rparr>)) \<and>
   write neverSkips (codes ''{"a":{}}'') (on [ROOT_KEY] 0 FastJson) =
     Some (Inr
       \<lparr>stack = [], postColon = True, lastString = Some (2, 3), skipped = False,
        events = \<lparr>tree = Node [] [(ROOT_KEY, Node [0] [])], cursor = []\<rparr>,
        calls = [(0, codes ''{"a":{}}'')]\<rparr>)\<close>
  by code_simp

subsection \<open>C10: termination of the lexers\<close>

text \<open>
  C10: \<^verbatim>\<open>_parseString\<close> returns exactly when a quote with an even number of backslashes before
  it (counted from the start of the scan) lies behind the offset it is called at, and
  \<^verbatim>\<open>_parsePrimitive\<close> returns exactly when a terminator lies at or behind its offset. A read
  outside the input matches no case, so without such a code unit the loop runs forever,
  and so does \<^verbatim>\<open>write\<close> once a pass of its loop reaches that token.
\<close>

theorem lexers_return_iff_terminator_present:
  "(parseString data index \<noteq> None \<longleftrightarrow>
      (\<exists>j. index < j \<and> get data j = Some QUOTE \<and> even (backslashes data (index + 1) j))) \<and>
   (parsePrimitive data index \<noteq> None \<longleftrightarrow> (\<exists>j\<ge>index. terminator (get data j))) \<and>
   (passes sk data n 0 s0 = Some (Inr (i, s)) \<and> \<not> skipped s \<and> get data i = Some QUOTE \<and>
      parseString data i = None \<longrightarrow> write sk data s0 = None) \<and>
   (passes sk data n 0 s0 = Some (Inr (i, s)) \<and> \<not> skipped s \<and> i < length data \<and>
      primitiveLead (get data i) \<and> parsePrimitive data i = None \<longrightarrow> write sk data s0 = None)"
proof (intro conjI impI)
  show "parseString data index \<noteq> None \<longleftrightarrow>
      (\<exists>j. index < j \<and> get data j = Some QUOTE \<and> even (backslashes data (index + 1) j))"
    by (rule parseString_returns_iff)
  show "parsePrimitive data index \<noteq> None \<longleftrightarrow> (\<exists>j\<ge>index. terminator (get data j))"
    by (rule parsePrimitive_returns_iff)
next
  assume a: "passes sk data n 0 s0 = Some (Inr (i, s)) \<and> \<not> skipped s \<and> get data i = Some QUOTE \<and>
      parseString data i = None"
  then have "dispatch sk data i s = None" by (simp add: dispatch_def onQuote_def)
  with a show "write sk data s0 = None"
    by (intro write_passes_None[of sk data n s0 i s]) (simp_all add: get_Some_iff)
next
  assume a: "passes sk data n 0 s0 = Some (Inr (i, s)) \<and> \<not> skipped s \<and> i < length data \<and>
      primitiveLead (get data i) \<and> parsePrimitive data i = None"
  then have "dispatch sk data i s = None"
    by (simp add: dispatch_def onPrimitive_def primitiveLead_def)
  with a show "write sk data s0 = None"
    by (intro write_passes_None[of sk data n s0 i s]) simp_all
qed

text \<open>
  C10, witness: the unterminated inputs \<^verbatim>\<open>["ab\<close> and \<^verbatim>\<open>[12\<close>, and their terminated
  versions.
\<close>

theorem lexers_return_iff_terminator_present_witness:
  \<open>parseString (codes ''["ab'') 1 = None \<and> parseString (codes ''["ab"]'') 1 = Some 4 \<and>
   parsePrimitive (codes ''[12'') 1 = None \<and> parsePrimitive (codes ''[12]'') 1 = Some 3 \<and>
   write neverSkips (codes ''["ab'') (on [ROOT_KEY] 0 FastJson) = None \<and>
   write neverSkips (codes ''[12'') (on [ROOT_KEY] 0 FastJson) = None\<close>
proof -
  let ?init = "on [ROOT_KEY] 0 FastJson"
  let ?st = "?init\<lparr>stack := [\<lparr>ftype = TYPE_ARRAY, fstart = 0, fkey = ROOT_KEY, findex = 0\<rparr>],
      events := (events ?init)\<lparr>cursor := [ROOT_KEY]\<rparr>\<rparr>"
  note t = lexers_return_iff_terminator_present
  have a: \<open>\<not> (\<exists>j. 1 < j \<and> get (codes ''["ab'') j = Some QUOTE \<and>
      even (backslashes (codes ''["ab'') (1 + 1) j))\<close>
  proof
    assume \<open>\<exists>j. 1 < j \<and> get (codes ''["ab'') j = Some QUOTE \<and>
      even (backslashes (codes ''["ab'') (1 + 1) j)\<close>
    then obtain j where \<open>1 < j\<close> \<open>get (codes ''["ab'') j = Some QUOTE\<close> by blast
    then have \<open>get (drop 2 (codes ''["ab'')) (j - 2) = Some QUOTE\<close>
      by (simp add: get_drop)
    from get_in_set[OF this] show False by (simp add: codes_def)
  qed
  have 1: \<open>parseString (codes ''["ab'') 1 = None\<close>
    using t[where data=\<open>codes ''["ab''\<close> and index=1] a by blast
  have b: \<open>\<not> (\<exists>j\<ge>1. terminator (get (codes ''[12'') j))\<close>
  proof
    assume \<open>\<exists>j\<ge>1. terminator (get (codes ''[12'') j)\<close>
    then obtain j c where \<open>1 \<le> j\<close> \<open>get (codes ''[12'') j = Some c\<close> \<open>terminator (Some c)\<close>
      by (auto simp: terminator_def)
    then have \<open>get (drop 1 (codes ''[12'')) (j - 1) = Some c\<close>
      by (simp add: get_drop)
    from get_in_set[OF this] \<open>terminator (Some c)\<close> show False
      by (auto simp: codes_def terminator_def)
  qed
  have 2: \<open>parsePrimitive (codes ''[12'') 1 = None\<close>
    using t[where data=\<open>codes ''[12''\<close> and index=1] b by blast
  have p1: \<open>passes neverSkips (codes ''["ab'') 1 0 ?init = Some (Inr (1, ?st))\<close> by code_simp
  have p2: \<open>passes neverSkips (codes ''[12'') 1 0 ?init = Some (Inr (1, ?st))\<close> by code_simp
  have 3: \<open>write neverSkips (codes ''["ab'') ?init = None\<close>
    using t[where sk=neverSkips and data=\<open>codes ''["ab''\<close> and n=1 and ?s0.0="?init" and i=1 and s="?st"] p1 1
    by (simp add: get_def codes_def on_def FastJson_def)
  have 4: \<open>write neverSkips (codes ''[12'') ?init = None\<close>
    using t[where sk=neverSkips and data=\<open>codes ''[12''\<close> and n=1 and ?s0.0="?init" and i=1 and s="?st"] p2 2
    by (simp add: get_def codes_def on_def FastJson_def primitiveLead_def)
  have 5: \<open>parseString (codes ''["ab"]'') 1 = Some 4\<close> by code_simp
  have 6: \<open>parsePrimitive (codes ''[12]'') 1 = Some 3\<close> by code_simp
  from 1 2 3 4 5 6 show ?thesis by simp
qed

end
